theory Spec2Isabelle
  imports Complex_Main
begin

section \<open>Shared data model\<close>

text \<open>
  JavaScript numbers are modelled as mathematical numbers: grid coordinates and vertex
  indices as \<open>nat\<close> or \<open>int\<close>, heights and world coordinates as \<open>real\<close>.  Rounding to
  binary floating point (including the \<open>Float32Array\<close> storage of vertex buffers) is
  not modelled.
\<close>

type_synonym vec3 = "real \<times> real \<times> real"

text \<open>
  A \<open>THREE.BufferGeometry\<close>: the \<open>position\<close> attribute (absent until
  \<open>setAttribute\<close> is called) and the optional triangle index.  Vertex normals are
  derived data and are not modelled.
\<close>

record geometry =
  position :: "vec3 list option"
  index :: "nat list option"

definition vertexCount :: "geometry \<Rightarrow> nat" where
  "vertexCount g = (case position g of None \<Rightarrow> 0 | Some ps \<Rightarrow> length ps)"

text \<open>
  Triangles drawn from a geometry: three indices per triangle when an index is set,
  otherwise three consecutive vertices per triangle.
\<close>

definition triangleCount :: "geometry \<Rightarrow> nat" where
  "triangleCount g = (case index g of None \<Rightarrow> vertexCount g div 3 | Some ix \<Rightarrow> length ix div 3)"

type_synonym grid = "bool list list"

record slice =
  slice_id :: int
  height :: real
  grid :: grid
  label :: string

record primitive =
  prim_id :: string
  prim_type :: string
  prim_position :: vec3
  prim_scale :: vec3
  operation :: string


section \<open>The store (unnamed/part_000)\<close>

record store =
  slices :: "slice list"
  limbVisibility :: string
  inflation :: real
  smoothNormals :: bool
  socket :: "geometry option"
  socketThickness :: real
  socketUseConvexHull :: bool
  generatedMesh :: "geometry option"
  primitives :: "primitive list"
  selectedPrimitiveId :: "string option"
  finalMesh :: "geometry option"

definition createEmptyGrid :: grid where
  "createEmptyGrid = replicate 20 (replicate 20 False)"

text \<open>
  \<open>slice.grid.map((r, i) => i === row ? r.map((c, j) => j === col ? value : c) : [...r])\<close>
\<close>

definition setCell :: "grid \<Rightarrow> nat \<Rightarrow> nat \<Rightarrow> bool \<Rightarrow> grid" where
  "setCell g row col v =
     map (\<lambda>(i, r). if i = row then map (\<lambda>(j, c). if j = col then v else c) (enumerate 0 r) else r)
         (enumerate 0 g)"

definition setSliceCell :: "int \<Rightarrow> nat \<Rightarrow> nat \<Rightarrow> bool \<Rightarrow> store \<Rightarrow> store" where
  "setSliceCell sliceId row col v st =
     st\<lparr>socket := None,
        slices := map (\<lambda>sl. if slice_id sl = sliceId
                              then sl\<lparr>grid := setCell (grid sl) row col v\<rparr> else sl)
                      (slices st)\<rparr>"

definition clearSlice :: "int \<Rightarrow> store \<Rightarrow> store" where
  "clearSlice sliceId st =
     st\<lparr>socket := None,
        slices := map (\<lambda>sl. if slice_id sl = sliceId then sl\<lparr>grid := createEmptyGrid\<rparr> else sl)
                      (slices st)\<rparr>"

definition setLimbVisibility :: "string \<Rightarrow> store \<Rightarrow> store" where
  "setLimbVisibility v st = st\<lparr>limbVisibility := v\<rparr>"

definition setInflation :: "real \<Rightarrow> store \<Rightarrow> store" where
  "setInflation v st = st\<lparr>inflation := v\<rparr>"

definition setSmoothNormals :: "bool \<Rightarrow> store \<Rightarrow> store" where
  "setSmoothNormals v st = st\<lparr>smoothNormals := v\<rparr>"

definition setSocket :: "geometry option \<Rightarrow> store \<Rightarrow> store" where
  "setSocket g st = st\<lparr>socket := g\<rparr>"

definition clearSocket :: "store \<Rightarrow> store" where
  "clearSocket st = st\<lparr>socket := None\<rparr>"

definition setSocketThickness :: "real \<Rightarrow> store \<Rightarrow> store" where
  "setSocketThickness v st = st\<lparr>socketThickness := v\<rparr>"

definition setSocketUseConvexHull :: "bool \<Rightarrow> store \<Rightarrow> store" where
  "setSocketUseConvexHull v st = st\<lparr>socketUseConvexHull := v\<rparr>"

definition setGeneratedMesh :: "geometry option \<Rightarrow> store \<Rightarrow> store" where
  "setGeneratedMesh g st = st\<lparr>generatedMesh := g\<rparr>"

text \<open>Decimal rendering of a non-negative integer, as a template literal prints it.\<close>

definition digitChar :: "nat \<Rightarrow> char" where
  "digitChar d = ''0123456789'' ! d"

function showNat :: "nat \<Rightarrow> string" where
  "showNat n = (if n < 10 then [digitChar n] else showNat (n div 10) @ [digitChar (n mod 10)])"
  by pat_completeness auto
termination
  by (relation "measure id") auto

declare showNat.simps [simp del]

text \<open>
  \<open>addPrimitive(type)\<close>.  The clock reading \<open>Date.now()\<close> (milliseconds since the
  epoch) is the explicit argument \<open>now\<close>; the id is \<open>`${type}-${Date.now()}`\<close>.
\<close>

definition newPrimitive :: "string \<Rightarrow> nat \<Rightarrow> primitive" where
  "newPrimitive ty now =
     \<lparr>prim_id = ty @ ''-'' @ showNat now, prim_type = ty, prim_position = (0, 0, 0),
      prim_scale = (1, 1, 1), operation = ''union''\<rparr>"

definition addPrimitive :: "string \<Rightarrow> nat \<Rightarrow> store \<Rightarrow> store" where
  "addPrimitive ty now st =
     st\<lparr>primitives := primitives st @ [newPrimitive ty now],
        selectedPrimitiveId := Some (prim_id (newPrimitive ty now))\<rparr>"

text \<open>
  The partial update object of \<open>updatePrimitive(id, updates)\<close>: every field of a
  primitive may be present or absent, and \<open>{ ...p, ...updates }\<close> overwrites the
  present ones.
\<close>

record updates =
  upd_id :: "string option"
  upd_type :: "string option"
  upd_position :: "vec3 option"
  upd_scale :: "vec3 option"
  upd_operation :: "string option"

definition mergeUpdates :: "primitive \<Rightarrow> updates \<Rightarrow> primitive" where
  "mergeUpdates p u =
     \<lparr>prim_id = (case upd_id u of None \<Rightarrow> prim_id p | Some v \<Rightarrow> v),
      prim_type = (case upd_type u of None \<Rightarrow> prim_type p | Some v \<Rightarrow> v),
      prim_position = (case upd_position u of None \<Rightarrow> prim_position p | Some v \<Rightarrow> v),
      prim_scale = (case upd_scale u of None \<Rightarrow> prim_scale p | Some v \<Rightarrow> v),
      operation = (case upd_operation u of None \<Rightarrow> operation p | Some v \<Rightarrow> v)\<rparr>"

definition updatePrimitive :: "string \<Rightarrow> updates \<Rightarrow> store \<Rightarrow> store" where
  "updatePrimitive pid u st =
     st\<lparr>primitives := map (\<lambda>p. if prim_id p = pid then mergeUpdates p u else p) (primitives st)\<rparr>"

definition deletePrimitive :: "string \<Rightarrow> store \<Rightarrow> store" where
  "deletePrimitive pid st =
     st\<lparr>primitives := filter (\<lambda>p. prim_id p \<noteq> pid) (primitives st),
        selectedPrimitiveId :=
          (if selectedPrimitiveId st = Some pid then None else selectedPrimitiveId st)\<rparr>"

definition setSelectedPrimitive :: "string option \<Rightarrow> store \<Rightarrow> store" where
  "setSelectedPrimitive pid st = st\<lparr>selectedPrimitiveId := pid\<rparr>"

definition setFinalMesh :: "geometry option \<Rightarrow> store \<Rightarrow> store" where
  "setFinalMesh g st = st\<lparr>finalMesh := g\<rparr>"

text \<open>The initial state of the store.\<close>

definition initialStore :: store where
  "initialStore =
     \<lparr>slices = [\<lparr>slice_id = 0, height = 1, grid = createEmptyGrid, label = ''Top''\<rparr>,
                \<lparr>slice_id = 1, height = 0.75, grid = createEmptyGrid, label = ''Mid-top''\<rparr>,
                \<lparr>slice_id = 2, height = 0.5, grid = createEmptyGrid, label = ''Mid-bottom''\<rparr>,
                \<lparr>slice_id = 3, height = 0.25, grid = createEmptyGrid, label = ''Extremity''\<rparr>],
      limbVisibility = ''voxel'', inflation = 0, smoothNormals = True, socket = None,
      socketThickness = 0.5, socketUseConvexHull = True, generatedMesh = None,
      primitives = [], selectedPrimitiveId = None, finalMesh = None\<rparr>"

text \<open>The sentinel mesh of the meshers: one vertex at the origin, no index.\<close>

definition sentinelGeometry :: geometry where
  "sentinelGeometry = \<lparr>position = Some [(0, 0, 0)], index = None\<rparr>"


section \<open>Socket generation (src/utils/socketGeometry.js)\<close>

subsection \<open>Vectors\<close>

text \<open>The operations of \<open>THREE.Vector3\<close> that the socket code calls.\<close>

definition addV :: "vec3 \<Rightarrow> vec3 \<Rightarrow> vec3" where
  "addV a b = (case a of (ax, ay, az) \<Rightarrow> case b of (bx, b_y, bz) \<Rightarrow> (ax + bx, ay + b_y, az + bz))"

definition subVectors :: "vec3 \<Rightarrow> vec3 \<Rightarrow> vec3" where
  "subVectors a b = (case a of (ax, ay, az) \<Rightarrow> case b of (bx, b_y, bz) \<Rightarrow> (ax - bx, ay - b_y, az - bz))"

definition multiplyScalar :: "vec3 \<Rightarrow> real \<Rightarrow> vec3" where
  "multiplyScalar a k = (case a of (ax, ay, az) \<Rightarrow> (ax * k, ay * k, az * k))"

definition divideScalar :: "vec3 \<Rightarrow> real \<Rightarrow> vec3" where
  "divideScalar a k = multiplyScalar a (1 / k)"

definition lengthV :: "vec3 \<Rightarrow> real" where
  "lengthV a = (case a of (ax, ay, az) \<Rightarrow> sqrt (ax * ax + ay * ay + az * az))"

text \<open>
  \<open>Vector3.normalize()\<close> is \<open>this.divideScalar(this.length() || 1)\<close>: the zero vector
  is divided by 1 and stays the zero vector.
\<close>

definition normalize :: "vec3 \<Rightarrow> vec3" where
  "normalize a = divideScalar a (if lengthV a = 0 then 1 else lengthV a)"

definition distanceTo :: "vec3 \<Rightarrow> vec3 \<Rightarrow> real" where
  "distanceTo a b = lengthV (subVectors a b)"

text \<open>
  The centroid loop: \<open>centroid.add(p)\<close> for every point, then
  \<open>centroid.divideScalar(points.length)\<close>.
\<close>

definition centroid :: "vec3 list \<Rightarrow> vec3" where
  "centroid points = divideScalar (fold (\<lambda>p c. addV c p) points (0, 0, 0)) (real (length points))"

definition expandPoints :: "vec3 list \<Rightarrow> real \<Rightarrow> vec3 list" where
  "expandPoints points amount =
     map (\<lambda>p. addV p (multiplyScalar (normalize (subVectors p (centroid points))) amount)) points"

definition shrinkPoints :: "vec3 list \<Rightarrow> real \<Rightarrow> vec3 list" where
  "shrinkPoints points amount =
     map (\<lambda>p. subVectors p (multiplyScalar (normalize (subVectors p (centroid points))) amount)) points"

subsection \<open>Meshes and the external geometry library\<close>

text \<open>A number that may still be the \<open>-Infinity\<close> a maximum search starts from.\<close>

datatype ext = NegInfinity | Finite real

fun extMax :: "ext \<Rightarrow> real \<Rightarrow> ext" where
  "extMax NegInfinity y = Finite y"
| "extMax (Finite m) y = Finite (max m y)"

fun extAdd :: "ext \<Rightarrow> real \<Rightarrow> ext" where
  "extAdd NegInfinity d = NegInfinity"
| "extAdd (Finite m) d = Finite (m + d)"

definition findTopY :: "vec3 list \<Rightarrow> ext" where
  "findTopY points = fold (\<lambda>p maxY. case p of (x, y, z) \<Rightarrow> extMax maxY y) points NegInfinity"

text \<open>A \<open>THREE.Mesh\<close>: a geometry placed by a position and a scale.\<close>

record mesh =
  mesh_geometry :: geometry
  mesh_position :: "real \<times> ext \<times> real"
  mesh_scale :: vec3

definition plainMesh :: "geometry \<Rightarrow> mesh" where
  "plainMesh g = \<lparr>mesh_geometry = g, mesh_position = (0, Finite 0, 0), mesh_scale = (1, 1, 1)\<rparr>"

text \<open>The parametric geometries of three.js that the code constructs.\<close>

datatype shape =
  SphereGeometry real nat nat
| BoxGeometry real real real
| CylinderGeometry real real real nat

text \<open>
  The third-party capabilities, taken as parameters: the geometry constructors and the
  bounding box of three.js, and the three boolean operations of three-csg-ts.  A boolean
  operation that throws is the value \<open>None\<close>.
\<close>

record library =
  convexGeometry :: "vec3 list \<Rightarrow> geometry"
  shapeGeometry :: "shape \<Rightarrow> geometry"
  boundingBox :: "geometry \<Rightarrow> vec3 \<times> vec3"
  csgUnion :: "mesh \<Rightarrow> mesh \<Rightarrow> mesh option"
  csgSubtract :: "mesh \<Rightarrow> mesh \<Rightarrow> mesh option"
  csgIntersect :: "mesh \<Rightarrow> mesh \<Rightarrow> mesh option"

definition createPrimitiveMesh :: "library \<Rightarrow> primitive \<Rightarrow> mesh" where
  "createPrimitiveMesh lib p =
     (let g = (if prim_type p = ''sphere'' then shapeGeometry lib (SphereGeometry 0.5 32 32)
               else if prim_type p = ''cube'' then shapeGeometry lib (BoxGeometry 1 1 1)
               else if prim_type p = ''cylinder'' then shapeGeometry lib (CylinderGeometry 0.5 0.5 1 32)
               else shapeGeometry lib (BoxGeometry 1 1 1))
      in \<lparr>mesh_geometry = g,
          mesh_position = (case prim_position p of (x, y, z) \<Rightarrow> (x, Finite y, z)),
          mesh_scale = prim_scale p\<rparr>)"

subsection \<open>The pipeline\<close>

text \<open>Every \<open>console.warn\<close> of the module, and the two ways a call can end.\<close>

datatype warning = NotEnoughPoints | CsgOperationFailed string

datatype outcome =
  Threw "warning list"
| Returned "geometry option" "warning list"

text \<open>
  The \<open>switch (primitive.operation)\<close> inside the \<open>try\<close>: no case matches an unknown
  operation and the shell stays as it is.
\<close>

definition csgOperation :: "library \<Rightarrow> string \<Rightarrow> mesh \<Rightarrow> mesh \<Rightarrow> mesh option" where
  "csgOperation lib opn socketMesh primMesh =
     (if opn = ''union'' then csgUnion lib socketMesh primMesh
      else if opn = ''subtract'' then csgSubtract lib socketMesh primMesh
      else if opn = ''intersect'' then csgIntersect lib socketMesh primMesh
      else Some socketMesh)"

text \<open>
  One iteration of the loop over the primitives: the state is the running shell and the
  warnings logged so far; the \<open>catch\<close> logs a warning and leaves \<open>socketMesh\<close> unassigned.
\<close>

definition applyPrimitive :: "library \<Rightarrow> primitive \<Rightarrow> mesh \<times> warning list \<Rightarrow> mesh \<times> warning list" where
  "applyPrimitive lib p acc =
     (case acc of (socketMesh, ws) \<Rightarrow>
        (case csgOperation lib (operation p) socketMesh (createPrimitiveMesh lib p) of
           None \<Rightarrow> (socketMesh, ws @ [CsgOperationFailed (prim_id p)])
         | Some m \<Rightarrow> (m, ws)))"

fun applyPrimitives :: "library \<Rightarrow> primitive list \<Rightarrow> mesh \<times> warning list \<Rightarrow> mesh \<times> warning list" where
  "applyPrimitives lib [] acc = acc"
| "applyPrimitives lib (p # ps) acc = applyPrimitives lib ps (applyPrimitive lib p acc)"

text \<open>
  Steps 2 to 6 of the current revision (lines 318 to 369): inner surface, expanded outer
  hull, hollow shell, top cut.  Both subtractions run outside any \<open>try\<close>, so a throw
  there (\<open>None\<close>) ends the call.
\<close>

definition cutMesh :: "library \<Rightarrow> geometry \<Rightarrow> vec3 list \<Rightarrow> mesh" where
  "cutMesh lib outerGeometry points =
     (case boundingBox lib outerGeometry of ((minX, minY, minZ), (maxX, maxY, maxZ)) \<Rightarrow>
        (let cutBoxSize = max (maxX - minX) (maxZ - minZ) * 3;
             cutBoxHeight = max (maxY - minY) 10;
             cutOffset = 0.05
         in \<lparr>mesh_geometry = shapeGeometry lib (BoxGeometry cutBoxSize cutBoxHeight cutBoxSize),
             mesh_position = ((minX + maxX) / 2,
                              extAdd (findTopY points) (cutBoxHeight / 2 - cutOffset),
                              (minZ + maxZ) / 2),
             mesh_scale = (1, 1, 1)\<rparr>))"

definition socketShell :: "library \<Rightarrow> geometry \<Rightarrow> vec3 list \<Rightarrow> real \<Rightarrow> bool \<Rightarrow> mesh option" where
  "socketShell lib limbGeometry points thickness useConvexHull =
     (let innerGeometry = (if useConvexHull then convexGeometry lib points else limbGeometry);
          outerGeometry = convexGeometry lib (expandPoints points thickness)
      in case csgSubtract lib (plainMesh outerGeometry) (plainMesh innerGeometry) of
           None \<Rightarrow> None
         | Some shell \<Rightarrow> csgSubtract lib shell (cutMesh lib outerGeometry points))"

definition generateSocket ::
  "library \<Rightarrow> geometry option \<Rightarrow> real \<Rightarrow> bool \<Rightarrow> primitive list \<Rightarrow> outcome" where
  "generateSocket lib limbGeometry thickness useConvexHull prims =
     (case limbGeometry of
        None \<Rightarrow> Returned None []
      | Some lg \<Rightarrow>
          (case position lg of
             None \<Rightarrow> Returned None []
           | Some points \<Rightarrow>
               if length points < 4 then Returned None [NotEnoughPoints]
               else (case socketShell lib lg points thickness useConvexHull of
                       None \<Rightarrow> Threw []
                     | Some shell \<Rightarrow>
                         (case applyPrimitives lib prims (shell, []) of
                            (socketMesh, ws) \<Rightarrow> Returned (Some (mesh_geometry socketMesh)) ws))))"

text \<open>
  The earlier revision of the same module (lines 101 to 195): the outer surface is the
  limb, the inner surface is the hull of the points shrunk toward the centroid, and the
  cutting box is a cube.
\<close>

definition cutMeshShrink :: "library \<Rightarrow> geometry \<Rightarrow> vec3 list \<Rightarrow> mesh" where
  "cutMeshShrink lib outerGeometry points =
     (case boundingBox lib outerGeometry of ((minX, minY, minZ), (maxX, maxY, maxZ)) \<Rightarrow>
        (let cutBoxSize = max (maxX - minX) (maxZ - minZ) * 2
         in \<lparr>mesh_geometry = shapeGeometry lib (BoxGeometry cutBoxSize cutBoxSize cutBoxSize),
             mesh_position = ((minX + maxX) / 2,
                              extAdd (findTopY points) (cutBoxSize / 2 - 0.1),
                              (minZ + maxZ) / 2),
             mesh_scale = (1, 1, 1)\<rparr>))"

definition socketShellShrink :: "library \<Rightarrow> geometry \<Rightarrow> vec3 list \<Rightarrow> real \<Rightarrow> bool \<Rightarrow> mesh option" where
  "socketShellShrink lib limbGeometry points thickness useConvexHull =
     (let outerGeometry = (if useConvexHull then convexGeometry lib points else limbGeometry);
          innerGeometry = convexGeometry lib (shrinkPoints points thickness)
      in case csgSubtract lib (plainMesh outerGeometry) (plainMesh innerGeometry) of
           None \<Rightarrow> None
         | Some shell \<Rightarrow> csgSubtract lib shell (cutMeshShrink lib outerGeometry points))"

definition generateSocketShrink ::
  "library \<Rightarrow> geometry option \<Rightarrow> real \<Rightarrow> bool \<Rightarrow> primitive list \<Rightarrow> outcome" where
  "generateSocketShrink lib limbGeometry thickness useConvexHull prims =
     (case limbGeometry of
        None \<Rightarrow> Returned None []
      | Some lg \<Rightarrow>
          (case position lg of
             None \<Rightarrow> Returned None []
           | Some points \<Rightarrow>
               if length points < 4 then Returned None [NotEnoughPoints]
               else (case socketShellShrink lib lg points thickness useConvexHull of
                       None \<Rightarrow> Threw []
                     | Some shell \<Rightarrow>
                         (case applyPrimitives lib prims (shell, []) of
                            (socketMesh, ws) \<Rightarrow> Returned (Some (mesh_geometry socketMesh)) ws))))"

text \<open>
  A geometry library for exercising the pipeline on concrete inputs: the hull keeps the
  points it is given, subtraction keeps its first operand, intersection keeps its second,
  and every union throws.
\<close>

definition throwingUnionLibrary :: library where
  "throwingUnionLibrary =
     \<lparr>convexGeometry = (\<lambda>ps. \<lparr>position = Some ps, index = None\<rparr>),
      shapeGeometry = (\<lambda>s. \<lparr>position = Some [], index = None\<rparr>),
      boundingBox = (\<lambda>g. ((0, 0, 0), (1, 1, 1))),
      csgUnion = (\<lambda>a b. None),
      csgSubtract = (\<lambda>a b. Some a),
      csgIntersect = (\<lambda>a b. Some b)\<rparr>"


fun warningsOf :: "outcome \<Rightarrow> warning list" where
  "warningsOf (Threw ws) = ws"
| "warningsOf (Returned g ws) = ws"

text \<open>Concrete inputs for the pipeline: a limb of three vertices, one of four, a primitive.\<close>

definition triangleLimb :: geometry where
  "triangleLimb = \<lparr>position = Some [(0, 0, 0), (1, 0, 0), (0, 1, 0)], index = None\<rparr>"

definition tetrahedronLimb :: geometry where
  "tetrahedronLimb = \<lparr>position = Some [(0, 0, 0), (1, 0, 0), (0, 1, 0), (0, 0, 1)], index = None\<rparr>"

definition samplePrimitive :: "string \<Rightarrow> string \<Rightarrow> primitive" where
  "samplePrimitive i opn =
     \<lparr>prim_id = i, prim_type = ''cube'', prim_position = (0, 0, 0), prim_scale = (1, 1, 1),
      operation = opn\<rparr>"


text \<open>Four points around the origin and the origin itself, which is their centroid.\<close>

definition crossPoints :: "vec3 list" where
  "crossPoints = [(1, 0, 0), (-1, 0, 0), (0, 1, 0), (0, -1, 0), (0, 0, 0)]"



section \<open>Limb geometry (unnamed/part_008, current revision, lines 1318 to 1710)\<close>

subsection \<open>The voxel skeleton\<close>

text \<open>\<open>Math.round\<close>: the nearest integer, a tie going up.\<close>

definition mathRound :: "real \<Rightarrow> int" where
  "mathRound x = \<lfloor>x + 1 / 2\<rfloor>"

text \<open>\<open>Math.round(y * 1000) / 1000\<close>\<close>

definition round3 :: "real \<Rightarrow> real" where
  "round3 y = real_of_int (mathRound (y * 1000)) / 1000"

record voxel =
  v_row :: int
  v_col :: int
  v_y :: real

text \<open>
  The voxel map is a \<open>Map\<close> from the key \<open>`${r},${c},${yRounded}`\<close> to the voxel
  \<open>{row: r, col: c, y: yRounded}\<close>, iterated in insertion order.  The key determines the
  voxel and the voxel the key, so the map is the list of its values in insertion order,
  and \<open>voxelMap.has(key)\<close> is membership of the voxel.
\<close>

definition addVoxel :: "real \<Rightarrow> real \<Rightarrow> real \<Rightarrow> voxel list \<Rightarrow> voxel list" where
  "addVoxel row col y voxelMap =
     (let v = \<lparr>v_row = mathRound row, v_col = mathRound col, v_y = round3 y\<rparr>
      in if v \<in> set voxelMap then voxelMap else voxelMap @ [v])"

text \<open>
  \<open>grid[row]?.[col]\<close> as a condition: a row or a column beyond the array reads
  \<open>undefined\<close>, which is falsy.
\<close>

definition cellAt :: "grid \<Rightarrow> nat \<Rightarrow> nat \<Rightarrow> bool" where
  "cellAt g row col \<longleftrightarrow> row < length g \<and> col < length (g ! row) \<and> g ! row ! col"

definition collectActiveCells :: "grid \<Rightarrow> nat \<Rightarrow> (nat \<times> nat) list" where
  "collectActiveCells g gridSize =
     fold (\<lambda>row cells.
             fold (\<lambda>col cells. if cellAt g row col then cells @ [(row, col)] else cells)
                  [0..<gridSize] cells)
          [0..<gridSize] []"

definition squaredDistance :: "nat \<times> nat \<Rightarrow> nat \<times> nat \<Rightarrow> int" where
  "squaredDistance a b =
     (int (fst a) - int (fst b)) ^ 2 + (int (snd a) - int (snd b)) ^ 2"

text \<open>The scan of \<open>findClosestCell\<close> from index 1 on: a strictly smaller distance wins.\<close>

fun closestScan :: "nat \<times> nat \<Rightarrow> (nat \<times> nat) list \<Rightarrow> nat \<times> nat \<Rightarrow> int \<Rightarrow> nat \<times> nat" where
  "closestScan cell [] closest minDist = closest"
| "closestScan cell (target # rest) closest minDist =
     (let dist = squaredDistance cell target
      in if dist < minDist then closestScan cell rest target dist
         else closestScan cell rest closest minDist)"

fun findClosestCell :: "nat \<times> nat \<Rightarrow> (nat \<times> nat) list \<Rightarrow> (nat \<times> nat) option" where
  "findClosestCell cell [] = None"
| "findClosestCell cell (first # rest) = Some (closestScan cell rest first (squaredDistance cell first))"

definition lerp :: "real \<Rightarrow> real \<Rightarrow> real \<Rightarrow> real" where
  "lerp a b t = a + (b - a) * t"

text \<open>The inner loop \<open>for (let step = 0; step <= steps; step++)\<close> with \<open>steps = 10\<close>.\<close>

definition interpolate ::
  "real \<Rightarrow> real \<Rightarrow> nat \<times> nat \<Rightarrow> nat \<times> nat \<Rightarrow> voxel list \<Rightarrow> voxel list" where
  "interpolate height1 height2 cell1 cell2 voxelMap =
     fold (\<lambda>step vm.
             (let t = real step / 10
              in addVoxel (lerp (real (fst cell1)) (real (fst cell2)) t)
                          (lerp (real (snd cell1)) (real (snd cell2)) t)
                          (lerp height1 height2 t) vm))
          [0..<11] voxelMap"

text \<open>
  One pair of consecutive slices with content: every cell of the upper slice is joined to
  its closest cell of the lower slice, then every cell of the lower slice to its closest
  cell of the upper one; a cell without a partner is skipped.
\<close>

definition loftPair :: "nat \<Rightarrow> real \<Rightarrow> slice \<Rightarrow> slice \<Rightarrow> voxel list \<Rightarrow> voxel list" where
  "loftPair gridSize heightScale slice1 slice2 voxelMap =
     (let cells1 = collectActiveCells (grid slice1) gridSize;
          cells2 = collectActiveCells (grid slice2) gridSize;
          height1 = height slice1 * heightScale;
          height2 = height slice2 * heightScale;
          down = fold (\<lambda>cell1 vm. case findClosestCell cell1 cells2 of
                                      None \<Rightarrow> vm
                                    | Some cell2 \<Rightarrow> interpolate height1 height2 cell1 cell2 vm)
                      cells1 voxelMap
      in fold (\<lambda>cell2 vm. case findClosestCell cell2 cells1 of
                             None \<Rightarrow> vm
                           | Some cell1 \<Rightarrow> interpolate height1 height2 cell1 cell2 vm)
              cells2 down)"

fun loftPairs :: "nat \<Rightarrow> real \<Rightarrow> slice list \<Rightarrow> voxel list \<Rightarrow> voxel list" where
  "loftPairs gridSize heightScale (slice1 # slice2 # rest) voxelMap =
     loftPairs gridSize heightScale (slice2 # rest) (loftPair gridSize heightScale slice1 slice2 voxelMap)"
| "loftPairs gridSize heightScale rest voxelMap = voxelMap"

text \<open>\<open>slice.grid.some((row) => row.some((cell) => cell))\<close>\<close>

definition hasContent :: "slice \<Rightarrow> bool" where
  "hasContent sl = list_ex (\<lambda>row. list_ex (\<lambda>cell. cell) row) (grid sl)"

text \<open>The single layer: the double loop over the grid of the only slice with content.\<close>

definition singleLayer :: "grid \<Rightarrow> nat \<Rightarrow> real \<Rightarrow> voxel list" where
  "singleLayer g gridSize y =
     fold (\<lambda>row vm.
             fold (\<lambda>col vm. if cellAt g row col then addVoxel (real row) (real col) y vm else vm)
                  [0..<gridSize] vm)
          [0..<gridSize] []"

text \<open>
  \<open>[...slices].sort((a, b) => b.height - a.height)\<close> is a stable sort by descending
  height, which is \<open>sort_key\<close> on the negated height.
\<close>

definition buildOccupiedVoxels :: "slice list \<Rightarrow> nat \<Rightarrow> real \<Rightarrow> voxel list" where
  "buildOccupiedVoxels sls gridSize heightScale =
     (let sortedSlices = sort_key (\<lambda>sl. - height sl) sls;
          slicesWithContent = filter hasContent sortedSlices
      in case slicesWithContent of
           [] \<Rightarrow> []
         | [sl] \<Rightarrow> singleLayer (grid sl) gridSize (height sl * heightScale)
         | _ \<Rightarrow> loftPairs gridSize heightScale slicesWithContent [])"

subsection \<open>The voxel mesher\<close>

definition cubeVertices :: "real \<Rightarrow> real \<Rightarrow> real \<Rightarrow> real \<Rightarrow> vec3 list" where
  "cubeVertices cx cy cz hs =
     [(cx - hs, cy - hs, cz - hs), (cx + hs, cy - hs, cz - hs),
      (cx + hs, cy + hs, cz - hs), (cx - hs, cy + hs, cz - hs),
      (cx - hs, cy - hs, cz + hs), (cx + hs, cy - hs, cz + hs),
      (cx + hs, cy + hs, cz + hs), (cx - hs, cy + hs, cz + hs)]"

definition cubeFaces :: "nat \<Rightarrow> nat list" where
  "cubeFaces b =
     [b, b + 1, b + 2,  b, b + 2, b + 3,
      b + 4, b + 6, b + 5,  b + 4, b + 7, b + 6,
      b + 3, b + 2, b + 6,  b + 3, b + 6, b + 7,
      b, b + 5, b + 1,  b, b + 4, b + 5,
      b + 1, b + 5, b + 6,  b + 1, b + 6, b + 2,
      b + 4, b, b + 3,  b + 4, b + 3, b + 7]"

text \<open>\<open>createCube\<close> pushes onto the two buffers it is handed.\<close>

definition createCube ::
  "vec3 list \<times> nat list \<Rightarrow> nat \<Rightarrow> real \<Rightarrow> real \<Rightarrow> real \<Rightarrow> real \<Rightarrow> vec3 list \<times> nat list" where
  "createCube buffers vertexIndex cx cy cz hs =
     (fst buffers @ cubeVertices cx cy cz hs, snd buffers @ cubeFaces vertexIndex)"

definition generateLimbGeometry :: "slice list \<Rightarrow> nat \<Rightarrow> real \<Rightarrow> geometry" where
  "generateLimbGeometry sls gridSize cellSize =
     (let heightScale = real gridSize * cellSize;
          hs = cellSize * 0.25;
          voxelMap = buildOccupiedVoxels sls gridSize heightScale
      in if length voxelMap = 0 then \<lparr>position = Some [(0, 0, 0)], index = None\<rparr>
         else (case fold (\<lambda>v (buffers, vertexIndex).
                            (let cx = (real_of_int (v_col v) - real gridSize / 2) * cellSize * 0.5;
                                 cz = (real_of_int (v_row v) - real gridSize / 2) * cellSize * 0.5
                             in (createCube buffers vertexIndex cx (v_y v) cz hs, vertexIndex + 8)))
                         voxelMap (([], []), 0)
               of ((vertices, indices), vertexIndex) \<Rightarrow>
                 \<lparr>position = Some vertices,
                  index = (if length indices > 0 then Some indices else None)\<rparr>))"

subsection \<open>The marching-cubes mesher\<close>

text \<open>
  The third-party parts: \<open>MarchingCubes\<close> of three.js, driven by its resolution, its
  isolation level and the field written cell by cell with \<open>setCell\<close>, returns a
  geometry; \<open>BufferGeometryUtils.mergeVertices\<close> maps a geometry to a geometry.
\<close>

record mesherLibrary =
  marchingCubes :: "nat \<Rightarrow> real \<Rightarrow> (nat \<Rightarrow> nat \<Rightarrow> nat \<Rightarrow> real) \<Rightarrow> geometry"
  mergeVertices :: "geometry \<Rightarrow> geometry"

text \<open>\<open>x || 1\<close> on a number.\<close>

definition orOne :: "real \<Rightarrow> real" where
  "orOne x = (if x = 0 then 1 else x)"

text \<open>
  The body of \<open>generateLimbGeometrySmooth\<close> below the empty-map test.  The map is not
  empty there, so every minimum and maximum search that starts from an infinity ends on
  a value of the list; it is written as a search that starts from the first voxel.
\<close>

definition smoothFromVoxels ::
  "mesherLibrary \<Rightarrow> voxel \<Rightarrow> voxel list \<Rightarrow> nat \<Rightarrow> real \<Rightarrow> real \<Rightarrow> bool \<Rightarrow> geometry" where
  "smoothFromVoxels lib v0 vs gridSize cellSize infl smoothN =
     (let voxels = v0 # vs;
          padding = 4;
          minRow = real_of_int (fold (\<lambda>v m. min m (v_row v)) vs (v_row v0)) - padding;
          maxRow = real_of_int (fold (\<lambda>v m. max m (v_row v)) vs (v_row v0)) + padding;
          minCol = real_of_int (fold (\<lambda>v m. min m (v_col v)) vs (v_col v0)) - padding;
          maxCol = real_of_int (fold (\<lambda>v m. max m (v_col v)) vs (v_col v0)) + padding;
          minY0 = fold (\<lambda>v m. min m (v_y v)) vs (v_y v0);
          maxY0 = fold (\<lambda>v m. max m (v_y v)) vs (v_y v0);
          yPadding = max ((maxY0 - minY0) * 0.3) 3;
          minY = minY0 - yPadding;
          maxY = maxY0 + yPadding;
          yRange = orOne (maxY - minY);
          rowRange = orOne (maxRow - minRow);
          colRange = orOne (maxCol - minCol);
          resolution = 32;
          yToGridScale = max rowRange colRange / yRange;
          field = (\<lambda>ix iy iz.
             (let voxelCol = minCol + (real ix / (real resolution - 1)) * colRange;
                  voxelY = minY + (real iy / (real resolution - 1)) * yRange;
                  voxelRow = minRow + (real iz / (real resolution - 1)) * rowRange;
                  dist = (\<lambda>v. (let dx = voxelCol - real_of_int (v_col v);
                                     dy = (voxelY - v_y v) * yToGridScale;
                                     dz = voxelRow - real_of_int (v_row v)
                                 in sqrt (dx * dx + dy * dy + dz * dz)));
                  minDist = fold (\<lambda>v m. min m (dist v)) vs (dist v0);
                  shellThickness = 1.2
              in shellThickness - minDist));
          mcGeometry = marchingCubes lib resolution (- infl) field;
          worldScaleX = (colRange * cellSize * 0.5) / 2;
          worldScaleY = yRange / 2;
          worldScaleZ = (rowRange * cellSize * 0.5) / 2;
          worldOffsetX = ((minCol + maxCol) / 2 - real gridSize / 2) * cellSize * 0.5;
          worldOffsetY = (minY + maxY) / 2;
          worldOffsetZ = ((minRow + maxRow) / 2 - real gridSize / 2) * cellSize * 0.5
      in case position mcGeometry of
           None \<Rightarrow> \<lparr>position = Some [(0, 0, 0)], index = None\<rparr>
         | Some vertices \<Rightarrow>
             (let moved = mcGeometry\<lparr>position :=
                    Some (map (\<lambda>(x, y, z). (x * worldScaleX + worldOffsetX,
                                              y * worldScaleY + worldOffsetY,
                                              z * worldScaleZ + worldOffsetZ)) vertices)\<rparr>
              in if smoothN then mergeVertices lib moved else moved))"

definition generateLimbGeometrySmooth ::
  "mesherLibrary \<Rightarrow> slice list \<Rightarrow> nat \<Rightarrow> real \<Rightarrow> real \<Rightarrow> bool \<Rightarrow> geometry" where
  "generateLimbGeometrySmooth lib sls gridSize cellSize infl smoothN =
     (let heightScale = real gridSize * cellSize;
          voxelMap = buildOccupiedVoxels sls gridSize heightScale
      in case voxelMap of
           [] \<Rightarrow> \<lparr>position = Some [(0, 0, 0)], index = None\<rparr>
         | v0 # vs \<Rightarrow> smoothFromVoxels lib v0 vs gridSize cellSize infl smoothN)"

text \<open>
  Concrete slices: one at height 0.33333 whose 20 by 20 grid holds exactly the cells
  (2,2) and (2,3), and one with an empty grid.
\<close>

definition twoCellGrid :: grid where
  "twoCellGrid = setCell (setCell createEmptyGrid 2 2 True) 2 3 True"

definition twoCellSlice :: slice where
  "twoCellSlice = \<lparr>slice_id = 1, height = 0.33333, grid = twoCellGrid, label = ''Mid-top''\<rparr>"

definition emptySlice :: slice where
  "emptySlice = \<lparr>slice_id = 0, height = 1, grid = createEmptyGrid, label = ''Top''\<rparr>"


text \<open>A marching-cubes engine that extracts no surface, for concrete runs.\<close>

definition silentMesher :: mesherLibrary where
  "silentMesher =
     \<lparr>marchingCubes = (\<lambda>resolution isolation field. \<lparr>position = None, index = None\<rparr>),
      mergeVertices = (\<lambda>g. g)\<rparr>"



section \<open>Convex brush (src/utils/convexHull.js)\<close>

text \<open>A grid point \<open>{ row, col }\<close>; the brush works on integer cell coordinates.\<close>

record point =
  p_row :: int
  p_col :: int

definition cross :: "point \<Rightarrow> point \<Rightarrow> point \<Rightarrow> int" where
  "cross o' a b = (p_col a - p_col o') * (p_row b - p_row o') - (p_row a - p_row o') * (p_col b - p_col o')"

text \<open>
  \<open>Array.from(new Set(points.map(key))).map(parse)\<close>: the key \<open>`${p.row},${p.col}`\<close>
  determines the point, and a \<open>Set\<close> keeps the first occurrence of every key in
  insertion order.
\<close>

definition uniquePoints :: "point list \<Rightarrow> point list" where
  "uniquePoints points = fold (\<lambda>p seen. if p \<in> set seen then seen else seen @ [p]) points []"

text \<open>
  The two hull arrays are kept with their last element first, so that \<open>push\<close> and
  \<open>pop\<close> work on the head.  \<open>popWhile\<close> is the inner \<open>while\<close> loop
  \<open>while (length >= 2 && cross(a[length - 2], a[length - 1], p) <= 0) a.pop()\<close>.
\<close>

fun popWhile :: "point list \<Rightarrow> point \<Rightarrow> point list" where
  "popWhile (b # a # st) p = (if cross a b p \<le> 0 then popWhile (a # st) p else b # a # st)"
| "popWhile st p = st"

definition pushPoint :: "point \<Rightarrow> point list \<Rightarrow> point list" where
  "pushPoint p st = p # popWhile st p"

text \<open>One of the two \<open>for\<close> loops over the sorted points; the result in array order.\<close>

definition halfHull :: "point list \<Rightarrow> point list" where
  "halfHull ps = rev (fold pushPoint ps [])"

text \<open>
  The comparator \<open>a.col === b.col ? a.row - b.row : a.col - b.col\<close> orders by column,
  then by row.
\<close>

definition lexLess :: "point \<Rightarrow> point \<Rightarrow> bool" where
  "lexLess a b \<longleftrightarrow> p_col a < p_col b \<or> (p_col a = p_col b \<and> p_row a < p_row b)"

fun insertPoint :: "point \<Rightarrow> point list \<Rightarrow> point list" where
  "insertPoint p [] = [p]"
| "insertPoint p (q # qs) = (if lexLess q p then q # insertPoint p qs else p # q # qs)"

definition sortPoints :: "point list \<Rightarrow> point list" where
  "sortPoints ps = foldr insertPoint ps []"

definition getConvexHull :: "point list \<Rightarrow> point list" where
  "getConvexHull points =
     (if length points < 3 then points
      else (let unique = uniquePoints points
            in if length unique < 3 then unique
               else (let sorted = sortPoints unique;
                         lower = halfHull sorted;
                         upper = halfHull (rev sorted)
                     in butlast lower @ butlast upper)))"

subsection \<open>Scanline fill\<close>

text \<open>
  The bounding-box searches start from an infinity and run over a hull of at least three
  points, so they end on a value of the list.
\<close>

definition lowest :: "int list \<Rightarrow> int" where
  "lowest xs = fold min (tl xs) (hd xs)"

definition highest :: "int list \<Rightarrow> int" where
  "highest xs = fold max (tl xs) (hd xs)"

text \<open>The pairs \<open>(hull[i], hull[(i + 1) % hull.length])\<close> for \<open>i\<close> from 0.\<close>

definition polygonEdges :: "point list \<Rightarrow> (point \<times> point) list" where
  "polygonEdges polygon = zip polygon (rotate1 polygon)"

definition crossesScanline :: "int \<Rightarrow> point \<times> point \<Rightarrow> bool" where
  "crossesScanline r e =
     (case e of (p1, p2) \<Rightarrow>
        (p_row p1 \<le> r \<and> p_row p2 > r) \<or> (p_row p2 \<le> r \<and> p_row p1 > r))"

definition intersectionCol :: "int \<Rightarrow> point \<times> point \<Rightarrow> real" where
  "intersectionCol r e =
     (case e of (p1, p2) \<Rightarrow>
        real_of_int (p_col p1)
          + real_of_int (r - p_row p1) * real_of_int (p_col p2 - p_col p1)
              / real_of_int (p_row p2 - p_row p1))"

definition intersections :: "point list \<Rightarrow> int \<Rightarrow> real list" where
  "intersections polygon r = map (intersectionCol r) (filter (crossesScanline r) (polygonEdges polygon))"

text \<open>\<open>filledCells.add(key)\<close> on a \<open>Set\<close>, kept in insertion order.\<close>

definition addCell :: "point \<Rightarrow> point list \<Rightarrow> point list" where
  "addCell c cells = (if c \<in> set cells then cells else cells @ [c])"

text \<open>
  The loop \<open>for (i = 0; i < intersections.length; i += 2)\<close>: consecutive pairs, an odd
  last intersection being left out.
\<close>

fun fillPairs :: "int \<Rightarrow> int \<Rightarrow> int \<Rightarrow> real list \<Rightarrow> point list \<Rightarrow> point list" where
  "fillPairs minCol maxCol r (x1 # x2 # rest) cells =
     (let startCol = max minCol \<lceil>x1\<rceil>;
          endCol = min maxCol \<lfloor>x2\<rfloor>
      in fillPairs minCol maxCol r rest
           (fold (\<lambda>c cs. addCell \<lparr>p_row = r, p_col = c\<rparr> cs) [startCol..endCol] cells))"
| "fillPairs minCol maxCol r rest cells = cells"

definition fillPolygon :: "point list \<Rightarrow> int \<Rightarrow> point list" where
  "fillPolygon polygon gridSize =
     (if length polygon < 3 then []
      else (let minRow = max 0 (lowest (map p_row polygon));
                maxRow = min (gridSize - 1) (highest (map p_row polygon));
                minCol = max 0 (lowest (map p_col polygon));
                maxCol = min (gridSize - 1) (highest (map p_col polygon))
            in fold (\<lambda>r cells. fillPairs minCol maxCol r (sort (intersections polygon r)) cells)
                    [minRow..maxRow] []))"

text \<open>The square with corners (5,5), (5,15), (15,15), (15,5), as rows and columns.\<close>

definition squareHull :: "point list" where
  "squareHull = [\<lparr>p_row = 5, p_col = 5\<rparr>, \<lparr>p_row = 5, p_col = 15\<rparr>,
                 \<lparr>p_row = 15, p_col = 15\<rparr>, \<lparr>p_row = 15, p_col = 5\<rparr>]"



subsection \<open>Notions for the analysis of the hull scan\<close>

text \<open>
  A displacement is lexicographically positive when it goes to a larger column, or stays
  in the column and goes to a larger row.  A point \<open>b\<close> is ahead of \<open>a\<close> in the scan
  direction \<open>s\<close> (1 for the lower hull, -1 for the upper hull) when the displacement from
  \<open>a\<close> to \<open>b\<close>, taken in that direction, is positive.
\<close>

definition lexPos :: "int \<Rightarrow> int \<Rightarrow> bool" where
  "lexPos dx dy \<longleftrightarrow> 0 < dx \<or> (dx = 0 \<and> 0 < dy)"

definition ahead :: "int \<Rightarrow> point \<Rightarrow> point \<Rightarrow> bool" where
  "ahead s a b \<longleftrightarrow> lexPos (s * (p_col b - p_col a)) (s * (p_row b - p_row a))"

text \<open>The neighbouring pairs of a list, in list order.\<close>

fun adjPairs :: "'a list \<Rightarrow> ('a \<times> 'a) list" where
  "adjPairs (a # b # xs) = (a, b) # adjPairs (b # xs)"
| "adjPairs xs = []"

text \<open>
  On a stack (last pushed point first): every three neighbours make a strict left turn,
  and every point of \<open>V\<close> lies on or to the left of every edge between neighbours.
\<close>

fun leftTurns :: "point list \<Rightarrow> bool" where
  "leftTurns (c # b # a # st) = (0 < cross a b c \<and> leftTurns (b # a # st))"
| "leftTurns st = True"

definition edgesLeftOf :: "point set \<Rightarrow> point list \<Rightarrow> bool" where
  "edgesLeftOf V st \<longleftrightarrow> (\<forall>(b, a) \<in> set (adjPairs st). \<forall>q \<in> V. 0 \<le> cross a b q)"

text \<open>
  The invariant of one scan after the points \<open>V\<close> have been visited: the stack holds
  visited points, its top is the last and its bottom the first of them in scan order, it
  is ordered, it turns left, and its edges have all visited points on their left.
\<close>

definition scanInv :: "int \<Rightarrow> point set \<Rightarrow> point list \<Rightarrow> bool" where
  "scanInv s V st \<longleftrightarrow>
     st \<noteq> [] \<and> set st \<subseteq> V
     \<and> (\<forall>q \<in> V. q = hd st \<or> ahead s q (hd st))
     \<and> (\<forall>q \<in> V. q = last st \<or> ahead s (last st) q)
     \<and> sorted_wrt (\<lambda>y x. ahead s x y) st
     \<and> leftTurns st
     \<and> edgesLeftOf V st"

text \<open>The reflection of a point through a centre.\<close>

definition mirror :: "point \<Rightarrow> point \<Rightarrow> point" where
  "mirror c x = \<lparr>p_row = 2 * p_row c - p_row x, p_col = 2 * p_col c - p_col x\<rparr>"

text \<open>A brush stroke: the corners of a square, a point inside it and a repeated corner.\<close>

definition brushPoints :: "point list" where
  "brushPoints = [\<lparr>p_row = 5, p_col = 5\<rparr>, \<lparr>p_row = 10, p_col = 10\<rparr>, \<lparr>p_row = 5, p_col = 15\<rparr>,
                  \<lparr>p_row = 15, p_col = 15\<rparr>, \<lparr>p_row = 15, p_col = 5\<rparr>, \<lparr>p_row = 5, p_col = 5\<rparr>]"


chapter \<open>Properties\<close>


section \<open>Store: invalidation of the cached socket\<close>

text \<open>
  C4 (as stated, refuted).  The claim says that a socket-config change or a primitive-list
  change sets the cached socket to null.  In a store holding a generated socket,
  \<open>setSocketThickness\<close> leaves that socket in place.
\<close>

theorem socket_kept_on_thickness_change:
  "socket (setSocketThickness 1 (setSocket (Some sentinelGeometry) initialStore)) \<noteq> None"
  by (simp add: setSocketThickness_def setSocket_def)

text \<open>
  C4 (amended).  A grid-cell edit and a slice clear set the cached socket to null;
  the socket-config setters and the three primitive-list operations leave the cached
  socket exactly as it was.
\<close>

theorem socket_invalidation:
  "socket (setSliceCell sliceId row col v st) = None
   \<and> socket (clearSlice sliceId st) = None
   \<and> socket (setSocketThickness t st) = socket st
   \<and> socket (setSocketUseConvexHull b st) = socket st
   \<and> socket (addPrimitive ty now st) = socket st
   \<and> socket (updatePrimitive pid u st) = socket st
   \<and> socket (deletePrimitive pid st) = socket st"
  by (simp add: setSliceCell_def clearSlice_def setSocketThickness_def
      setSocketUseConvexHull_def addPrimitive_def updatePrimitive_def deletePrimitive_def)

section \<open>Socket generation: the guard and the primitive loop\<close>

lemma applyPrimitives_append:
  "applyPrimitives lib (ps @ qs) acc = applyPrimitives lib qs (applyPrimitives lib ps acc)"
  by (induction ps arbitrary: acc) simp_all

lemma applyPrimitive_warnings:
  "applyPrimitive lib p (m, ws) = (fst (applyPrimitive lib p (m, [])), ws @ snd (applyPrimitive lib p (m, [])))"
  by (simp add: applyPrimitive_def split: option.splits)

lemma applyPrimitives_warnings:
  "applyPrimitives lib ps (m, ws) =
     (fst (applyPrimitives lib ps (m, [])), ws @ snd (applyPrimitives lib ps (m, [])))"
proof (induction ps arbitrary: m ws)
  case Nil
  show ?case by simp
next
  case (Cons p ps)
  obtain m' ws' where step: "applyPrimitive lib p (m, []) = (m', ws')"
    by (cases "applyPrimitive lib p (m, [])")
  have step_ws: "applyPrimitive lib p (m, ws) = (m', ws @ ws')"
    using applyPrimitive_warnings [of lib p m ws] step by simp
  show ?case
    using Cons.IH [of m' "ws @ ws'"] Cons.IH [of m' ws'] step step_ws by simp
qed

lemma applyPrimitive_no_guard_warning:
  "NotEnoughPoints \<notin> set (snd acc) \<Longrightarrow> NotEnoughPoints \<notin> set (snd (applyPrimitive lib p acc))"
  by (cases acc) (simp add: applyPrimitive_def split: option.splits)

lemma applyPrimitives_no_guard_warning:
  "NotEnoughPoints \<notin> set (snd acc) \<Longrightarrow> NotEnoughPoints \<notin> set (snd (applyPrimitives lib ps acc))"
  by (induction ps arbitrary: acc) (simp_all add: applyPrimitive_no_guard_warning)

lemma generateSocket_enough:
  assumes "position lg = Some points" and "4 \<le> length points"
  shows "generateSocket lib (Some lg) t u prims =
           (case socketShell lib lg points t u of
              None \<Rightarrow> Threw []
            | Some shell \<Rightarrow> Returned (Some (mesh_geometry (fst (applyPrimitives lib prims (shell, [])))))
                                    (snd (applyPrimitives lib prims (shell, []))))"
  using assms by (simp add: generateSocket_def split: option.splits prod.splits)

lemma generateSocketShrink_enough:
  assumes "position lg = Some points" and "4 \<le> length points"
  shows "generateSocketShrink lib (Some lg) t u prims =
           (case socketShellShrink lib lg points t u of
              None \<Rightarrow> Threw []
            | Some shell \<Rightarrow> Returned (Some (mesh_geometry (fst (applyPrimitives lib prims (shell, [])))))
                                    (snd (applyPrimitives lib prims (shell, []))))"
  using assms by (simp add: generateSocketShrink_def split: option.splits prod.splits)

text \<open>
  C2.  A limb mesh with a position attribute of fewer than 4 vertices makes
  \<open>generateSocket\<close> (both revisions) return null after logging the
  "Not enough points" warning: it neither throws nor returns a mesh.  With 4 or more
  vertices that branch is not taken: the warning is never logged and the call never
  returns null.
\<close>

theorem insufficient_points:
  assumes "position lg = Some points"
  shows "(length points < 4 \<longrightarrow>
            generateSocket lib (Some lg) t u prims = Returned None [NotEnoughPoints]
          \<and> generateSocketShrink lib (Some lg) t u prims = Returned None [NotEnoughPoints])
       \<and> (4 \<le> length points \<longrightarrow>
            NotEnoughPoints \<notin> set (warningsOf (generateSocket lib (Some lg) t u prims))
          \<and> NotEnoughPoints \<notin> set (warningsOf (generateSocketShrink lib (Some lg) t u prims))
          \<and> (\<forall>ws. generateSocket lib (Some lg) t u prims \<noteq> Returned None ws)
          \<and> (\<forall>ws. generateSocketShrink lib (Some lg) t u prims \<noteq> Returned None ws))"
proof (intro conjI impI)
  assume "length points < 4"
  then show "generateSocket lib (Some lg) t u prims = Returned None [NotEnoughPoints]"
    using assms by (simp add: generateSocket_def)
  show "generateSocketShrink lib (Some lg) t u prims = Returned None [NotEnoughPoints]"
    using assms \<open>length points < 4\<close> by (simp add: generateSocketShrink_def)
next
  assume ge: "4 \<le> length points"
  have nw: "NotEnoughPoints \<notin> set (snd (applyPrimitives lib prims (shell, [])))" for shell
    using applyPrimitives_no_guard_warning [of "(shell, [])" lib prims] by simp
  show "NotEnoughPoints \<notin> set (warningsOf (generateSocket lib (Some lg) t u prims))"
    using generateSocket_enough [OF assms ge] nw by (simp split: option.splits)
  show "NotEnoughPoints \<notin> set (warningsOf (generateSocketShrink lib (Some lg) t u prims))"
    using generateSocketShrink_enough [OF assms ge] nw by (simp split: option.splits)
  show "\<forall>ws. generateSocket lib (Some lg) t u prims \<noteq> Returned None ws"
    using generateSocket_enough [OF assms ge] by (simp split: option.splits)
  show "\<forall>ws. generateSocketShrink lib (Some lg) t u prims \<noteq> Returned None ws"
    using generateSocketShrink_enough [OF assms ge] by (simp split: option.splits)
qed

text \<open>The guard at a triangle (3 vertices) and at a tetrahedron (4 vertices).\<close>

theorem insufficient_points_witness:
  "generateSocket throwingUnionLibrary (Some triangleLimb) 0.5 True [] = Returned None [NotEnoughPoints]
   \<and> generateSocketShrink throwingUnionLibrary (Some triangleLimb) 0.5 True [] = Returned None [NotEnoughPoints]
   \<and> NotEnoughPoints \<notin> set (warningsOf (generateSocket throwingUnionLibrary (Some tetrahedronLimb) 0.5 True []))
   \<and> generateSocket throwingUnionLibrary (Some tetrahedronLimb) 0.5 True [] \<noteq> Returned None []"
  using insufficient_points [of triangleLimb "[(0, 0, 0), (1, 0, 0), (0, 1, 0)]" throwingUnionLibrary "0.5" True "[]"]
    insufficient_points [of tetrahedronLimb "[(0, 0, 0), (1, 0, 0), (0, 1, 0), (0, 0, 1)]" throwingUnionLibrary "0.5" True "[]"]
  by (simp add: triangleLimb_def tetrahedronLimb_def)

text \<open>
  C3.  Once the shell is built, the primitives are applied in list order, each to the
  shell left by the ones before it.  Let \<open>m\<close> and \<open>ws\<close> be the shell and the warnings
  after the primitives \<open>ps\<close>.  If the boolean operation of the next primitive \<open>p\<close>
  throws, the iteration leaves the shell \<open>m\<close> untouched and logs one warning carrying
  the id of \<open>p\<close>; the final mesh is the one the list without \<open>p\<close> produces; the call
  still returns a mesh, obtained by processing all remaining primitives \<open>qs\<close> from
  \<open>m\<close>.  If the operation succeeds with \<open>m'\<close>, the remaining primitives run from \<open>m'\<close>.
\<close>

theorem failing_primitive_skipped:
  assumes "position lg = Some points" and "4 \<le> length points"
    and "socketShell lib lg points t u = Some shell"
    and "applyPrimitives lib ps (shell, []) = (m, ws)"
  shows "(csgOperation lib (operation p) m (createPrimitiveMesh lib p) = None \<longrightarrow>
            applyPrimitive lib p (m, ws) = (m, ws @ [CsgOperationFailed (prim_id p)])
          \<and> fst (applyPrimitives lib (ps @ p # qs) (shell, [])) = fst (applyPrimitives lib (ps @ qs) (shell, []))
          \<and> generateSocket lib (Some lg) t u (ps @ p # qs)
              = Returned (Some (mesh_geometry (fst (applyPrimitives lib qs (m, [])))))
                         (ws @ [CsgOperationFailed (prim_id p)] @ snd (applyPrimitives lib qs (m, []))))
       \<and> (\<forall>m'. csgOperation lib (operation p) m (createPrimitiveMesh lib p) = Some m' \<longrightarrow>
            generateSocket lib (Some lg) t u (ps @ p # qs)
              = Returned (Some (mesh_geometry (fst (applyPrimitives lib qs (m', [])))))
                         (ws @ snd (applyPrimitives lib qs (m', []))))"
proof -
  have run: "applyPrimitives lib (ps @ p # qs) (shell, [])
               = applyPrimitives lib qs (applyPrimitive lib p (m, ws))"
    using assms(4) by (simp add: applyPrimitives_append)
  have gen: "generateSocket lib (Some lg) t u (ps @ p # qs)
               = Returned (Some (mesh_geometry (fst (applyPrimitives lib qs (applyPrimitive lib p (m, ws))))))
                          (snd (applyPrimitives lib qs (applyPrimitive lib p (m, ws))))"
    using generateSocket_enough [OF assms(1,2), of lib t u "ps @ p # qs"] assms(3) run by simp
  have without: "applyPrimitives lib (ps @ qs) (shell, []) = applyPrimitives lib qs (m, ws)"
    using assms(4) by (simp add: applyPrimitives_append)
  have split_ws: "applyPrimitives lib qs (n, vs)
                    = (fst (applyPrimitives lib qs (n, [])), vs @ snd (applyPrimitives lib qs (n, [])))" for n vs
    by (rule applyPrimitives_warnings)
  show ?thesis
  proof (intro conjI impI allI)
    assume fail: "csgOperation lib (operation p) m (createPrimitiveMesh lib p) = None"
    then show step: "applyPrimitive lib p (m, ws) = (m, ws @ [CsgOperationFailed (prim_id p)])"
      by (simp add: applyPrimitive_def)
    show "fst (applyPrimitives lib (ps @ p # qs) (shell, [])) = fst (applyPrimitives lib (ps @ qs) (shell, []))"
      using run without step split_ws [of m ws] split_ws [of m "ws @ [CsgOperationFailed (prim_id p)]"]
      by simp
    show "generateSocket lib (Some lg) t u (ps @ p # qs)
            = Returned (Some (mesh_geometry (fst (applyPrimitives lib qs (m, [])))))
                       (ws @ [CsgOperationFailed (prim_id p)] @ snd (applyPrimitives lib qs (m, [])))"
      using gen step split_ws [of m "ws @ [CsgOperationFailed (prim_id p)]"] by simp
  next
    fix m'
    assume "csgOperation lib (operation p) m (createPrimitiveMesh lib p) = Some m'"
    then have "applyPrimitive lib p (m, ws) = (m', ws)"
      by (simp add: applyPrimitive_def)
    then show "generateSocket lib (Some lg) t u (ps @ p # qs)
            = Returned (Some (mesh_geometry (fst (applyPrimitives lib qs (m', [])))))
                       (ws @ snd (applyPrimitives lib qs (m', [])))"
      using gen split_ws [of m' ws] by simp
  qed
qed

lemma sample_shell:
  "socketShell throwingUnionLibrary tetrahedronLimb [(0, 0, 0), (1, 0, 0), (0, 1, 0), (0, 0, 1)] 0.5 True
     = Some (plainMesh \<lparr>position = Some (expandPoints [(0, 0, 0), (1, 0, 0), (0, 1, 0), (0, 0, 1)] 0.5), index = None\<rparr>)"
  by (simp add: socketShell_def throwingUnionLibrary_def)

text \<open>
  A subtract, a throwing union and an intersect in a row: the union is skipped with its
  warning and the intersect still runs.
\<close>

theorem failing_primitive_skipped_witness:
  "generateSocket throwingUnionLibrary (Some tetrahedronLimb) 0.5 True
     ([samplePrimitive ''cube-1'' ''subtract''] @ samplePrimitive ''cube-2'' ''union'' # [samplePrimitive ''cube-3'' ''intersect''])
   = Returned (Some \<lparr>position = Some [], index = None\<rparr>) [CsgOperationFailed ''cube-2'']"
  using failing_primitive_skipped [of tetrahedronLimb "[(0, 0, 0), (1, 0, 0), (0, 1, 0), (0, 0, 1)]"
      throwingUnionLibrary "0.5" True
      "plainMesh \<lparr>position = Some (expandPoints [(0, 0, 0), (1, 0, 0), (0, 1, 0), (0, 0, 1)] 0.5), index = None\<rparr>"
      "[samplePrimitive ''cube-1'' ''subtract'']"
      "plainMesh \<lparr>position = Some (expandPoints [(0, 0, 0), (1, 0, 0), (0, 1, 0), (0, 0, 1)] 0.5), index = None\<rparr>"
      "[]" "samplePrimitive ''cube-2'' ''union''" "[samplePrimitive ''cube-3'' ''intersect'']"]
    sample_shell
  by (simp add: tetrahedronLimb_def applyPrimitive_def csgOperation_def createPrimitiveMesh_def
      samplePrimitive_def throwingUnionLibrary_def)

section \<open>Store: primitive lifecycle\<close>

lemma showNat_sample: "showNat 1700000000000 = ''1700000000000''"
  by (simp add: showNat.simps digitChar_def)

lemma addPrimitive_selects_new:
  "selectedPrimitiveId (addPrimitive ty now st)
     = Some (prim_id (last (primitives (addPrimitive ty now st))))"
  by (simp add: addPrimitive_def)

lemma deletePrimitive_selection:
  "selectedPrimitiveId (deletePrimitive pid st)
     = (if selectedPrimitiveId st = Some pid then None else selectedPrimitiveId st)"
  by (simp add: deletePrimitive_def)

text \<open>
  C5 (the code at the failing input).  Two \<open>addPrimitive("sphere")\<close> calls that read the
  same clock value 1700000000000 leave two primitives with one and the same id in the
  list: the id given to the second primitive is not distinct from the existing one.
\<close>

theorem addPrimitive_id_collision:
  "map prim_id (primitives (addPrimitive ''sphere'' 1700000000000
       (addPrimitive ''sphere'' 1700000000000 initialStore)))
   = [''sphere-1700000000000'', ''sphere-1700000000000'']"
  by (simp add: addPrimitive_def newPrimitive_def initialStore_def showNat_sample)


section \<open>Socket generation: the outer-surface offset\<close>

lemma lengthV_nonneg: "0 \<le> lengthV a"
  by (cases a) (simp add: lengthV_def)

lemma lengthV_zero_iff: "lengthV a = 0 \<longleftrightarrow> a = (0, 0, 0)"
proof (cases a)
  case (fields x y z)
  have "x * x + y * y + z * z = 0 \<longleftrightarrow> x = 0 \<and> y = 0 \<and> z = 0"
    by (metis add_nonneg_eq_0_iff mult_eq_0_iff zero_le_square add_nonneg_nonneg)
  then show ?thesis
    using fields by (simp add: lengthV_def)
qed

lemma lengthV_multiplyScalar: "lengthV (multiplyScalar a k) = \<bar>k\<bar> * lengthV a"
proof (cases a)
  case (fields x y z)
  have "x * k * (x * k) + y * k * (y * k) + z * k * (z * k) = (k * k) * (x * x + y * y + z * z)"
    by (simp add: algebra_simps)
  then show ?thesis
    using fields by (simp add: lengthV_def multiplyScalar_def real_sqrt_mult)
qed

lemma subVectors_eq_zero_iff: "subVectors p c = (0, 0, 0) \<longleftrightarrow> p = c"
  by (cases p; cases c) (auto simp: subVectors_def)

lemma normalize_zero: "normalize (0, 0, 0) = (0, 0, 0)"
  by (simp add: normalize_def divideScalar_def multiplyScalar_def)

lemma expand_offset:
  "subVectors (addV p (multiplyScalar (normalize (subVectors p c)) t)) c
     = multiplyScalar (subVectors p c)
         (1 + t / (if lengthV (subVectors p c) = 0 then 1 else lengthV (subVectors p c)))"
  by (cases p; cases c)
     (simp add: subVectors_def addV_def multiplyScalar_def normalize_def divideScalar_def algebra_simps)

lemma expand_distance:
  assumes "p \<noteq> c" and "0 < t"
  shows "distanceTo (addV p (multiplyScalar (normalize (subVectors p c)) t)) c = distanceTo p c + t"
proof -
  let ?d = "subVectors p c"
  have pos: "0 < lengthV ?d"
    using assms(1) lengthV_nonneg [of ?d] lengthV_zero_iff [of ?d] subVectors_eq_zero_iff [of p c]
    by linarith
  have "distanceTo (addV p (multiplyScalar (normalize ?d) t)) c
          = \<bar>1 + t / lengthV ?d\<bar> * lengthV ?d"
    using pos by (simp add: distanceTo_def expand_offset lengthV_multiplyScalar)
  also have "\<dots> = (1 + t / lengthV ?d) * lengthV ?d"
    using pos assms(2) by simp
  also have "\<dots> = lengthV ?d + t"
    using pos by (simp add: field_simps)
  finally show ?thesis
    by (simp add: distanceTo_def)
qed

lemma expandPoints_nth:
  "i < length points \<Longrightarrow>
   expandPoints points t ! i
     = addV (points ! i) (multiplyScalar (normalize (subVectors (points ! i) (centroid points))) t)"
  by (simp add: expandPoints_def)

lemma centroid_cross: "centroid crossPoints = (0, 0, 0)"
  by (simp add: crossPoints_def centroid_def addV_def divideScalar_def multiplyScalar_def)

text \<open>
  C8 (as stated, refuted).  In the five-point set \<open>crossPoints\<close> the last point is the
  centroid itself; expanded by thickness 1 it stays where it is, so its distance from the
  centroid has not grown by 1.
\<close>

theorem expandPoints_centroid_point_unmoved:
  "\<not> (distanceTo (expandPoints crossPoints 1 ! 4) (centroid crossPoints)
        \<ge> distanceTo (crossPoints ! 4) (centroid crossPoints) + 1)"
  unfolding crossPoints_def
  by (simp add: expandPoints_def centroid_cross [unfolded crossPoints_def] normalize_def
      divideScalar_def multiplyScalar_def subVectors_def addV_def distanceTo_def lengthV_def)

text \<open>
  C8 (amended).  For a thickness \<open>t > 0\<close>, \<open>expandPoints\<close> maps every point \<open>p\<close> of the
  list to \<open>p\<close> plus \<open>t\<close> times the normalised vector from the centroid to \<open>p\<close>.  For a
  point other than the centroid that vector has length 1 and the output lies exactly
  \<open>t\<close> farther from the centroid than \<open>p\<close>; a point that coincides with the centroid is
  returned unmoved.
\<close>

theorem expandPoints_offset:
  assumes "i < length points" and "0 < t"
  shows "expandPoints points t ! i
           = addV (points ! i) (multiplyScalar (normalize (subVectors (points ! i) (centroid points))) t)
       \<and> (points ! i \<noteq> centroid points \<longrightarrow>
            lengthV (normalize (subVectors (points ! i) (centroid points))) = 1
          \<and> distanceTo (expandPoints points t ! i) (centroid points)
              = distanceTo (points ! i) (centroid points) + t)
       \<and> (points ! i = centroid points \<longrightarrow> expandPoints points t ! i = points ! i)"
proof -
  let ?p = "points ! i" and ?c = "centroid points"
  have nth: "expandPoints points t ! i = addV ?p (multiplyScalar (normalize (subVectors ?p ?c)) t)"
    using assms(1) by (rule expandPoints_nth)
  have unit: "lengthV (normalize (subVectors ?p ?c)) = 1" if "?p \<noteq> ?c"
  proof -
    have "0 < lengthV (subVectors ?p ?c)"
      using that lengthV_nonneg [of "subVectors ?p ?c"] lengthV_zero_iff [of "subVectors ?p ?c"]
        subVectors_eq_zero_iff [of ?p ?c] by linarith
    then show ?thesis
      by (simp add: normalize_def divideScalar_def lengthV_multiplyScalar)
  qed
  have same: "expandPoints points t ! i = ?p" if "?p = ?c"
  proof -
    have "subVectors ?p ?c = (0, 0, 0)"
      using that subVectors_eq_zero_iff by simp
    then show ?thesis
      using nth by (cases ?p) (simp add: normalize_zero multiplyScalar_def addV_def)
  qed
  show ?thesis
    using nth unit same expand_distance [of ?p ?c t] assms(2) by simp
qed

text \<open>The offset at the first point of \<open>crossPoints\<close> and at its centroid point.\<close>

theorem expandPoints_offset_witness:
  "expandPoints crossPoints 1 ! 0 = (2, 0, 0)
   \<and> distanceTo (expandPoints crossPoints 1 ! 0) (centroid crossPoints) = 2
   \<and> expandPoints crossPoints 1 ! 4 = (0, 0, 0)"
  using expandPoints_offset [of 0 crossPoints 1] expandPoints_offset [of 4 crossPoints 1]
  unfolding crossPoints_def
  by (simp add: centroid_cross [unfolded crossPoints_def] normalize_def divideScalar_def
      multiplyScalar_def subVectors_def addV_def distanceTo_def lengthV_def)

section \<open>Limb geometry: the empty and the single-slice skeleton\<close>


lemma no_content_no_voxels:
  assumes "\<forall>sl \<in> set sls. \<not> hasContent sl"
  shows "buildOccupiedVoxels sls gridSize heightScale = []"
proof -
  have "filter hasContent (sort_key (\<lambda>sl. - height sl) sls) = []"
    using assms by (simp add: filter_empty_conv)
  then show ?thesis
    by (simp add: buildOccupiedVoxels_def)
qed

text \<open>
  C1.  When no slice has a true cell in its grid, the voxel mesher and the marching-cubes
  mesher both return the sentinel geometry: a position attribute holding the single
  vertex (0, 0, 0) and no index, hence 1 vertex and 0 triangles.  Both functions return
  a geometry on every path, so the result is never null.
\<close>

theorem empty_skeleton_sentinel:
  assumes "\<forall>sl \<in> set sls. \<not> hasContent sl"
  shows "generateLimbGeometry sls gridSize cellSize = \<lparr>position = Some [(0, 0, 0)], index = None\<rparr>
       \<and> vertexCount (generateLimbGeometry sls gridSize cellSize) = 1
       \<and> triangleCount (generateLimbGeometry sls gridSize cellSize) = 0
       \<and> generateLimbGeometrySmooth lib sls gridSize cellSize infl smoothN
           = \<lparr>position = Some [(0, 0, 0)], index = None\<rparr>
       \<and> vertexCount (generateLimbGeometrySmooth lib sls gridSize cellSize infl smoothN) = 1
       \<and> triangleCount (generateLimbGeometrySmooth lib sls gridSize cellSize infl smoothN) = 0"
  using no_content_no_voxels [OF assms]
  by (simp add: generateLimbGeometry_def generateLimbGeometrySmooth_def vertexCount_def
      triangleCount_def)

lemma createEmptyGrid_no_content: "\<not> list_ex (\<lambda>row. list_ex (\<lambda>cell. cell) row) createEmptyGrid"
  by (simp add: createEmptyGrid_def list_ex_iff)

lemma initial_slices_empty: "\<forall>sl \<in> set (slices initialStore). \<not> hasContent sl"
  by (simp add: initialStore_def hasContent_def createEmptyGrid_no_content)

text \<open>The four empty slices the store starts with.\<close>

theorem empty_skeleton_sentinel_witness:
  "generateLimbGeometry (slices initialStore) 20 1 = sentinelGeometry
   \<and> generateLimbGeometrySmooth silentMesher (slices initialStore) 20 1 0 True = sentinelGeometry
   \<and> vertexCount (generateLimbGeometry (slices initialStore) 20 1) = 1
   \<and> triangleCount (generateLimbGeometry (slices initialStore) 20 1) = 0"
  using empty_skeleton_sentinel [OF initial_slices_empty, of 20 1 silentMesher 0 True]
  by (simp add: sentinelGeometry_def vertexCount_def triangleCount_def)

lemma inner_voxels:
  "fold (\<lambda>col vm. if P col then addVoxel (real row) (real col) y vm else vm) cs acc
     = fold (\<lambda>col vm. addVoxel (real row) (real col) y vm) (filter P cs) acc"
  by (induction cs arbitrary: acc) simp_all

lemma row_filter_23:
  assumes "3 < n" and "\<And>c. P c \<longleftrightarrow> c = 2 \<or> c = (3::nat)"
  shows "filter P [0..<n] = [2, 3]"
proof -
  have split: "[0..<n] = [0, 1, 2, 3] @ [4..<n]"
  proof -
    have "[0..<n] = [0..<4] @ [4..<n]"
      using assms(1) upt_add_eq_append [of 0 4 "n - 4"] by simp
    moreover have "[0..<4] = [0, 1, 2, 3::nat]"
      by (simp add: upt_rec)
    ultimately show ?thesis by simp
  qed
  have "filter P [4..<n] = []"
    using assms(2) by (auto simp: filter_empty_conv)
  then show ?thesis
    using assms(2) by (simp add: split)
qed

lemma singleLayer_two_cells:
  assumes gs: "3 < gridSize"
    and cells: "\<And>r c. cellAt g r c \<longleftrightarrow> r = 2 \<and> (c = 2 \<or> c = 3)"
  shows "singleLayer g gridSize y =
           [\<lparr>v_row = 2, v_col = 2, v_y = round3 y\<rparr>, \<lparr>v_row = 2, v_col = 3, v_y = round3 y\<rparr>]"
proof -
  let ?row = "\<lambda>row vm. fold (\<lambda>col vm. if cellAt g row col then addVoxel (real row) (real col) y vm else vm)
                  [0..<gridSize] vm"
  have other: "?row r vm = vm" if "r \<noteq> 2" for r vm
  proof -
    have "filter (cellAt g r) [0..<gridSize] = []"
      using that cells by (simp add: filter_empty_conv)
    then show ?thesis
      by (simp add: inner_voxels)
  qed
  have two: "?row 2 vm = addVoxel 2 3 y (addVoxel 2 2 y vm)" for vm
  proof -
    have "filter (cellAt g 2) [0..<gridSize] = [2, 3]"
      using gs cells by (intro row_filter_23) auto
    then show ?thesis
      by (simp add: inner_voxels)
  qed
  have skip: "fold ?row rs vm = vm" if "2 \<notin> set rs" for rs vm
    using that by (induction rs arbitrary: vm) (auto simp: other)
  have split: "[0..<gridSize] = [0, 1] @ [2] @ [3..<gridSize]"
  proof -
    have "[0..<gridSize] = [0..<3] @ [3..<gridSize]"
      using gs upt_add_eq_append [of 0 3 "gridSize - 3"] by simp
    moreover have "[0..<3] = [0, 1, 2::nat]"
      by (simp add: upt_rec)
    ultimately show ?thesis by simp
  qed
  have "singleLayer g gridSize y = fold ?row [3..<gridSize] (?row 2 (fold ?row [0, 1] []))"
    unfolding singleLayer_def by (subst split) (simp only: fold_append o_apply fold_simps)
  also have "\<dots> = ?row 2 (fold ?row [0, 1] [])"
    by (rule skip) simp
  also have "fold ?row [0, 1] [] = []"
    by (rule skip) simp
  also have "?row 2 [] = addVoxel 2 3 y (addVoxel 2 2 y [])"
    by (rule two)
  finally show ?thesis
    by (simp add: addVoxel_def mathRound_def)
qed


lemma single_content_slice:
  assumes "filter hasContent sls = [sl]"
  shows "buildOccupiedVoxels sls gridSize heightScale = singleLayer (grid sl) gridSize (height sl * heightScale)"
proof -
  have "filter hasContent (sort_key (\<lambda>sl. - height sl) sls) = [sl]"
    using assms by (simp add: filter_sort)
  then show ?thesis
    by (simp add: buildOccupiedVoxels_def)
qed

lemma round3_exact:
  assumes "y * 1000 = real_of_int k"
  shows "round3 y = y"
proof -
  have "mathRound (y * 1000) = k"
    unfolding mathRound_def assms by linarith
  then show ?thesis
    using assms by (simp add: round3_def)
qed

lemma round3_close: "\<bar>round3 y - y\<bar> \<le> 1 / 2000"
proof -
  define n where "n = \<lfloor>y * 1000 + 1 / 2\<rfloor>"
  have lo: "real_of_int n \<le> y * 1000 + 1 / 2" and hi: "y * 1000 + 1 / 2 < real_of_int n + 1"
    unfolding n_def by linarith+
  have r: "round3 y = real_of_int n / 1000"
    by (simp add: round3_def mathRound_def n_def)
  have "round3 y - y \<le> 1 / 2000"
    unfolding r using lo by linarith
  moreover have "- (1 / 2000) \<le> round3 y - y"
    unfolding r using hi by linarith
  ultimately show ?thesis
    by (intro abs_leI) linarith+
qed

text \<open>
  C9 (amended).  When exactly one slice has content, its active cells are (2,2) and
  (2,3) and the grid dimension reaches column 3, the skeleton is exactly these two cells,
  in this order, with no interpolated point, each at the slice's height times the height
  scale \<^emph>\<open>rounded to three decimals\<close>.  The rounded height is within 0.0005 of the
  scaled height and equals it whenever the scaled height is a multiple of 0.001.
\<close>

theorem single_slice_skeleton:
  assumes "filter hasContent sls = [sl]"
    and "3 < gridSize"
    and "\<forall>r c. cellAt (grid sl) r c \<longleftrightarrow> r = 2 \<and> (c = 2 \<or> c = 3)"
  shows "buildOccupiedVoxels sls gridSize heightScale
           = [\<lparr>v_row = 2, v_col = 2, v_y = round3 (height sl * heightScale)\<rparr>,
              \<lparr>v_row = 2, v_col = 3, v_y = round3 (height sl * heightScale)\<rparr>]
       \<and> \<bar>round3 (height sl * heightScale) - height sl * heightScale\<bar> \<le> 1 / 2000
       \<and> (\<forall>k. height sl * heightScale * 1000 = real_of_int k \<longrightarrow>
             round3 (height sl * heightScale) = height sl * heightScale)"
  using single_content_slice [OF assms(1)] singleLayer_two_cells [OF assms(2)] assms(3)
    round3_close round3_exact
  by simp

lemma length_setCell: "length (setCell g row col v) = length g"
  by (simp add: setCell_def)

lemma nth_setCell:
  "i < length g \<Longrightarrow>
   setCell g row col v ! i
     = (if i = row then map (\<lambda>(j, c). if j = col then v else c) (enumerate 0 (g ! i)) else g ! i)"
  by (simp add: setCell_def nth_enumerate_eq)

lemma cellAt_setCell:
  "cellAt (setCell g row col v) r c
     \<longleftrightarrow> (if r = row \<and> c = col then r < length g \<and> c < length (g ! r) \<and> v else cellAt g r c)"
proof (cases "r < length g")
  case False
  then show ?thesis
    by (simp add: cellAt_def length_setCell)
next
  case inside: True
  show ?thesis
  proof (cases "r = row")
    case False
    then show ?thesis
      using inside by (simp add: cellAt_def length_setCell nth_setCell)
  next
    case True
    show ?thesis
    proof (cases "c < length (g ! r)")
      case False
      then show ?thesis
        using inside True by (simp add: cellAt_def length_setCell nth_setCell)
    next
      case col: True
      then show ?thesis
        using inside True by (simp add: cellAt_def length_setCell nth_setCell nth_enumerate_eq)
    qed
  qed
qed

lemma cellAt_createEmptyGrid: "cellAt createEmptyGrid r c \<longleftrightarrow> False"
  by (auto simp: cellAt_def createEmptyGrid_def)

lemma length_createEmptyGrid: "length createEmptyGrid = 20"
  by (simp add: createEmptyGrid_def)

lemma nth_createEmptyGrid: "r < 20 \<Longrightarrow> createEmptyGrid ! r = replicate 20 False"
  by (simp add: createEmptyGrid_def)

lemma cellAt_twoCellGrid: "cellAt twoCellGrid r c \<longleftrightarrow> r = 2 \<and> (c = 2 \<or> c = 3)"
  by (auto simp: twoCellGrid_def cellAt_setCell cellAt_createEmptyGrid length_setCell
      nth_setCell length_createEmptyGrid nth_createEmptyGrid)

lemma hasContent_iff: "hasContent sl \<longleftrightarrow> (\<exists>r c. cellAt (grid sl) r c)"
proof
  assume "hasContent sl"
  then obtain row where row: "row \<in> set (grid sl)" "True \<in> set row"
    by (auto simp: hasContent_def list_ex_iff)
  then obtain r c where "r < length (grid sl)" "grid sl ! r = row" "c < length row" "row ! c"
    by (metis in_set_conv_nth)
  then show "\<exists>r c. cellAt (grid sl) r c"
    by (auto simp: cellAt_def)
next
  assume "\<exists>r c. cellAt (grid sl) r c"
  then show "hasContent sl"
    by (auto simp: cellAt_def hasContent_def list_ex_iff) (metis nth_mem)
qed

lemma sample_slices_content: "filter hasContent [emptySlice, twoCellSlice] = [twoCellSlice]"
proof -
  have "cellAt (grid twoCellSlice) 2 2"
    by (simp add: twoCellSlice_def cellAt_twoCellGrid)
  then have "hasContent twoCellSlice"
    unfolding hasContent_iff by blast
  moreover have "\<not> hasContent emptySlice"
    unfolding hasContent_iff by (simp add: emptySlice_def cellAt_createEmptyGrid)
  ultimately show ?thesis by simp
qed

lemma sample_round3: "round3 (height twoCellSlice * 20) = 6.667"
  by (simp add: twoCellSlice_def round3_def mathRound_def)

lemma sample_skeleton:
  "buildOccupiedVoxels [emptySlice, twoCellSlice] 20 20
     = [\<lparr>v_row = 2, v_col = 2, v_y = 6.667\<rparr>, \<lparr>v_row = 2, v_col = 3, v_y = 6.667\<rparr>]"
proof -
  have "cellAt (grid twoCellSlice) r c \<longleftrightarrow> r = 2 \<and> (c = 2 \<or> c = 3)" for r c
    by (simp add: twoCellSlice_def cellAt_twoCellGrid)
  then show ?thesis
    using single_content_slice [OF sample_slices_content, of 20 20]
      singleLayer_two_cells [of 20 "grid twoCellSlice" "height twoCellSlice * 20"]
    by (simp add: sample_round3)
qed

text \<open>
  C9 (as stated, refuted).  For the slice of height 0.33333 and height scale 20 the two
  skeleton points lie at 6.667, not at the scaled height 6.6666.
\<close>

theorem single_slice_height_rounded:
  "set (buildOccupiedVoxels [emptySlice, twoCellSlice] 20 20)
     \<noteq> {\<lparr>v_row = 2, v_col = 2, v_y = height twoCellSlice * 20\<rparr>,
         \<lparr>v_row = 2, v_col = 3, v_y = height twoCellSlice * 20\<rparr>}"
proof -
  have "height twoCellSlice * 20 \<noteq> 6.667"
    by (simp add: twoCellSlice_def)
  then show ?thesis
    unfolding sample_skeleton by (auto simp: doubleton_eq_iff)
qed

text \<open>The same two slices as an instance of the amended statement.\<close>

theorem single_slice_skeleton_witness:
  "buildOccupiedVoxels [emptySlice, twoCellSlice] 20 20
     = [\<lparr>v_row = 2, v_col = 2, v_y = 6.667\<rparr>, \<lparr>v_row = 2, v_col = 3, v_y = 6.667\<rparr>]
   \<and> \<bar>6.667 - height twoCellSlice * 20\<bar> \<le> 1 / 2000"
  using single_slice_skeleton [of "[emptySlice, twoCellSlice]" twoCellSlice 20 20]
    sample_slices_content cellAt_twoCellGrid
  by (simp add: sample_round3) (simp add: twoCellSlice_def)

section \<open>Convex brush: the scanline fill of the square\<close>


lemma grid_cells_set:
  "set (concat (map (\<lambda>r. map (\<lambda>c. \<lparr>p_row = r, p_col = c\<rparr>) [c1..c2]) [r1..r2]))
     = {p::point. r1 \<le> p_row p \<and> p_row p \<le> r2 \<and> c1 \<le> p_col p \<and> p_col p \<le> c2}"
proof -
  have "set (concat (map (\<lambda>r. map (\<lambda>c. \<lparr>p_row = r, p_col = c\<rparr>) [c1..c2]) [r1..r2]))
          = (\<Union>r \<in> {r1..r2}. (\<lambda>c. \<lparr>p_row = r, p_col = c\<rparr>) ` {c1..c2})"
    by (simp only: set_concat set_map set_upto image_image)
  also have "\<dots> = {p::point. r1 \<le> p_row p \<and> p_row p \<le> r2 \<and> c1 \<le> p_col p \<and> p_col p \<le> c2}"
  proof (intro set_eqI iffI)
    fix p :: point
    assume "p \<in> (\<Union>r \<in> {r1..r2}. (\<lambda>c. \<lparr>p_row = r, p_col = c\<rparr>) ` {c1..c2})"
    then obtain r c where "r \<in> {r1..r2}" "c \<in> {c1..c2}" "p = \<lparr>p_row = r, p_col = c\<rparr>"
      by blast
    then show "p \<in> {p. r1 \<le> p_row p \<and> p_row p \<le> r2 \<and> c1 \<le> p_col p \<and> p_col p \<le> c2}"
      by simp
  next
    fix p :: point
    assume "p \<in> {p. r1 \<le> p_row p \<and> p_row p \<le> r2 \<and> c1 \<le> p_col p \<and> p_col p \<le> c2}"
    then have "p_row p \<in> {r1..r2}" and "p_col p \<in> {c1..c2}"
      by simp_all
    moreover have "p = \<lparr>p_row = p_row p, p_col = p_col p\<rparr>"
      by simp
    ultimately show "p \<in> (\<Union>r \<in> {r1..r2}. (\<lambda>c. \<lparr>p_row = r, p_col = c\<rparr>) ` {c1..c2})"
      by blast
  qed
  finally show ?thesis .
qed


lemma square_fill:
  "fillPolygon squareHull 20
     = concat (map (\<lambda>r. map (\<lambda>c. \<lparr>p_row = r, p_col = c\<rparr>) [5..15]) [5..14])"
  by code_simp

lemma square_cells_count:
  "length (concat (map (\<lambda>r. map (\<lambda>c. \<lparr>p_row = r, p_col = c\<rparr>) [5..15]) [5..(14::int)])) = 110"
  by code_simp

lemma square_cells_distinct:
  "distinct (concat (map (\<lambda>r. map (\<lambda>c. \<lparr>p_row = r, p_col = c\<rparr>) [5..15]) [5..(14::int)]))"
  by code_simp

lemma square_scanlines:
  "sort (intersections squareHull 5) = [5, 15]
   \<and> sort (intersections squareHull 14) = [5, 15]
   \<and> intersections squareHull 15 = []"
  by (simp add: intersections_def polygonEdges_def squareHull_def crossesScanline_def intersectionCol_def)

text \<open>
  C6 (as stated, refuted).  On the square the fill does not return 121 cells: the cell
  (15,5), in the last row of the square, is not filled.
\<close>

theorem square_fill_misses_last_row:
  "length (fillPolygon squareHull 20) \<noteq> 121
   \<and> \<lparr>p_row = 15, p_col = 5\<rparr> \<notin> set (fillPolygon squareHull 20)"
  by (simp only: square_fill square_cells_count grid_cells_set) simp

text \<open>
  C6 (amended).  For the square hull (5,5), (5,15), (15,15), (15,5) on a 20 by 20 grid,
  \<open>fillPolygon\<close> returns, row by row, exactly the 110 cells with row in [5,14] and column
  in [5,15], each once.  Under the half-open test \<open>p1.row <= row && p2.row > row\<close> no
  edge crosses the scanline of row 15, so the last row of the square is left empty.
\<close>

theorem square_fill_cells:
  "fillPolygon squareHull 20
     = concat (map (\<lambda>r. map (\<lambda>c. \<lparr>p_row = r, p_col = c\<rparr>) [5..15]) [5..14])
   \<and> set (fillPolygon squareHull 20)
       = {p::point. 5 \<le> p_row p \<and> p_row p \<le> 14 \<and> 5 \<le> p_col p \<and> p_col p \<le> 15}
   \<and> length (fillPolygon squareHull 20) = 110
   \<and> distinct (fillPolygon squareHull 20)"
  by (simp only: square_fill square_cells_count square_cells_distinct grid_cells_set)

section \<open>Convex brush: the hull\<close>

subsection \<open>Turns of lexicographically positive displacements\<close>



lemma turn_transitive:
  fixes ux uy vx vy wx wy :: int
  assumes "lexPos ux uy" and "lexPos vx vy" and "lexPos wx wy"
    and uv: "0 \<le> ux * vy - uy * vx" and vw: "0 \<le> vx * wy - vy * wx"
  shows "0 \<le> ux * wy - uy * wx"
proof (cases "0 < vx")
  case True
  have "(ux * wy - uy * wx) * vx = (ux * vy - uy * vx) * wx + (vx * wy - vy * wx) * ux"
    by (simp add: algebra_simps)
  moreover have "0 \<le> wx" and "0 \<le> ux"
    using assms(1,3) by (auto simp: lexPos_def)
  ultimately have "0 \<le> (ux * wy - uy * wx) * vx"
    using uv vw by simp
  then show ?thesis
    using True by (simp add: zero_le_mult_iff)
next
  case False
  then have v: "vx = 0" "0 < vy"
    using assms(2) by (auto simp: lexPos_def)
  have "0 \<le> - (vy * wx)"
    using vw v by simp
  then have "wx \<le> 0"
    using v(2) by (simp add: mult_le_0_iff)
  then have w: "wx = 0" "0 < wy"
    using assms(3) by (auto simp: lexPos_def)
  have "0 \<le> ux"
    using assms(1) by (auto simp: lexPos_def)
  then show ?thesis
    using w by simp
qed

lemma turn_transitive_strict:
  fixes ux uy vx vy wx wy :: int
  assumes "lexPos ux uy" and "lexPos vx vy" and "lexPos wx wy"
    and uv: "0 < ux * vy - uy * vx" and vw: "0 \<le> vx * wy - vy * wx"
  shows "0 < ux * wy - uy * wx"
proof -
  have ux: "0 < ux"
  proof (rule ccontr)
    assume "\<not> 0 < ux"
    then have u: "ux = 0" "0 < uy"
      using assms(1) by (auto simp: lexPos_def)
    have "0 \<le> vx"
      using assms(2) by (auto simp: lexPos_def)
    then have "0 \<le> uy * vx"
      using u(2) by simp
    then show False
      using uv u(1) by simp
  qed
  show ?thesis
  proof (cases "0 < wx")
    case True
    show ?thesis
    proof (cases "0 < vx")
      case vpos: True
      have "(ux * wy - uy * wx) * vx = (ux * vy - uy * vx) * wx + (vx * wy - vy * wx) * ux"
        by (simp add: algebra_simps)
      moreover have "0 < (ux * vy - uy * vx) * wx"
        using uv True by simp
      moreover have "0 \<le> (vx * wy - vy * wx) * ux"
        using vw ux by simp
      ultimately have "0 < (ux * wy - uy * wx) * vx"
        by linarith
      then show ?thesis
        using vpos by (simp add: zero_less_mult_iff)
    next
      case False
      then have v: "vx = 0" "0 < vy"
        using assms(2) by (auto simp: lexPos_def)
      have "0 < vy * wx"
        using v(2) True by simp
      then show ?thesis
        using vw v(1) by simp
    qed
  next
    case False
    then have w: "wx = 0" "0 < wy"
      using assms(3) by (auto simp: lexPos_def)
    then show ?thesis
      using ux by simp
  qed
qed


lemma point_eq_iff: "a = b \<longleftrightarrow> p_row a = p_row b \<and> p_col a = p_col b" for a b :: point
  by auto

lemma ahead_irrefl: "\<not> ahead s a a"
  by (simp add: ahead_def lexPos_def)

lemma ahead_asym:
  assumes "s = 1 \<or> s = -1" and "ahead s a b"
  shows "\<not> ahead s b a"
  using assms by (auto simp: ahead_def lexPos_def)

lemma ahead_trans:
  assumes "s = 1 \<or> s = -1" and "ahead s a b" and "ahead s b c"
  shows "ahead s a c"
  using assms by (auto simp: ahead_def lexPos_def)

lemma ahead_total:
  assumes "s = 1 \<or> s = -1"
  shows "a = b \<or> ahead s a b \<or> ahead s b a"
  using assms by (auto simp: ahead_def lexPos_def point_eq_iff)

lemma ahead_forward: "ahead 1 a b \<longleftrightarrow> lexLess a b"
  by (auto simp: ahead_def lexPos_def lexLess_def)

lemma ahead_backward: "ahead (- 1) a b \<longleftrightarrow> lexLess b a"
  by (auto simp: ahead_def lexPos_def lexLess_def)

lemma cross_swap: "cross a c b = - cross a b c"
  by (simp add: cross_def algebra_simps)

lemma cross_rotate: "cross b c a = cross a b c"
  by (simp add: cross_def algebra_simps)

lemma cross_same [simp]: "cross a b b = 0" "cross a b a = 0" "cross a a b = 0"
  by (simp_all add: cross_def)

text \<open>Three points ahead of a common origin: the turn order is transitive.\<close>

lemma fan_transitive:
  assumes s: "s = 1 \<or> s = -1"
    and "ahead s a u" and "ahead s a v" and "ahead s a w"
    and "0 \<le> cross a u v" and "0 \<le> cross a v w"
  shows "0 \<le> cross a u w"
proof -
  let ?ux = "s * (p_col u - p_col a)" and ?uy = "s * (p_row u - p_row a)"
  let ?vx = "s * (p_col v - p_col a)" and ?vy = "s * (p_row v - p_row a)"
  let ?wx = "s * (p_col w - p_col a)" and ?wy = "s * (p_row w - p_row a)"
  have ss: "s * s = 1"
    using s by auto
  have c: "?ux * ?vy - ?uy * ?vx = cross a u v" "?vx * ?wy - ?vy * ?wx = cross a v w"
    "?ux * ?wy - ?uy * ?wx = cross a u w"
    using s by (auto simp: cross_def algebra_simps)
  have "0 \<le> ?ux * ?wy - ?uy * ?wx"
    using assms(2-6) unfolding ahead_def c [symmetric] by (rule turn_transitive)
  then show ?thesis
    unfolding c .
qed

lemma fan_transitive_strict:
  assumes s: "s = 1 \<or> s = -1"
    and "ahead s a u" and "ahead s a v" and "ahead s a w"
    and "0 < cross a u v" and "0 \<le> cross a v w"
  shows "0 < cross a u w"
proof -
  let ?ux = "s * (p_col u - p_col a)" and ?uy = "s * (p_row u - p_row a)"
  let ?vx = "s * (p_col v - p_col a)" and ?vy = "s * (p_row v - p_row a)"
  let ?wx = "s * (p_col w - p_col a)" and ?wy = "s * (p_row w - p_row a)"
  have c: "?ux * ?vy - ?uy * ?vx = cross a u v" "?vx * ?wy - ?vy * ?wx = cross a v w"
    "?ux * ?wy - ?uy * ?wx = cross a u w"
    using s by (auto simp: cross_def algebra_simps)
  have "0 < ?ux * ?wy - ?uy * ?wx"
    using assms(2-6) unfolding ahead_def c [symmetric] by (rule turn_transitive_strict)
  then show ?thesis
    unfolding c .
qed

lemma ahead_mirror: "ahead s c (mirror c x) \<longleftrightarrow> ahead s x c"
  by (simp add: ahead_def mirror_def algebra_simps)

lemma cross_mirror_left: "cross c (mirror c x) y = - cross c x y"
  by (simp add: cross_def mirror_def algebra_simps)

lemma cross_mirror_right: "cross c x (mirror c y) = - cross c x y"
  by (simp add: cross_def mirror_def algebra_simps)

text \<open>Popping \<open>b\<close> for \<open>p\<close>: what lay left of the edge from \<open>a\<close> to \<open>b\<close> lies left of the
  segment from \<open>a\<close> to \<open>p\<close>.\<close>

lemma pop_keeps_left:
  assumes s: "s = 1 \<or> s = -1"
    and "ahead s a b" and "ahead s a p" and "ahead s a q"
    and "cross a b p \<le> 0" and "0 \<le> cross a b q"
  shows "0 \<le> cross a p q"
proof -
  have "0 \<le> cross a p b"
    using assms(5) cross_swap [of a p b] by simp
  then show ?thesis
    using fan_transitive [OF s assms(3) assms(2) assms(4)] assms(6) by simp
qed

text \<open>Pushing \<open>p\<close> on \<open>b\<close> after a left turn: what lay behind \<open>b\<close> and left of the edge
  from \<open>a\<close> to \<open>b\<close> lies left of the new edge from \<open>b\<close> to \<open>p\<close>.\<close>

lemma push_keeps_left:
  assumes s: "s = 1 \<or> s = -1"
    and "ahead s a b" and "ahead s b p" and "ahead s q b"
    and "0 \<le> cross a b q" and "0 < cross a b p"
  shows "0 \<le> cross b p q"
proof -
  let ?q = "mirror b q" and ?a = "mirror b a"
  have 1: "ahead s b ?q" "ahead s b ?a"
    using assms(2,4) by (simp_all add: ahead_mirror)
  have "cross b ?q ?a = cross b q a"
    by (simp add: cross_mirror_left cross_mirror_right)
  also have "\<dots> = cross a b q"
    by (rule cross_rotate)
  finally have 2: "0 \<le> cross b ?q ?a"
    using assms(5) by simp
  have "cross b ?a p = - cross b a p"
    by (rule cross_mirror_left)
  also have "\<dots> = cross b p a"
    using cross_swap [of b p a] by simp
  also have "\<dots> = cross a b p"
    by (rule cross_rotate)
  finally have 3: "0 \<le> cross b ?a p"
    using assms(6) by simp
  have "0 \<le> cross b ?q p"
    using fan_transitive [OF s 1(1) 1(2) assms(3) 2 3] .
  then have "0 \<le> - cross b q p"
    by (simp add: cross_mirror_left)
  then show ?thesis
    using cross_swap [of b p q] by simp
qed

text \<open>Along a chain of left turns a left turn at the top carries down one edge.\<close>

lemma left_turn_carries:
  assumes s: "s = 1 \<or> s = -1"
    and "ahead s a' a" and "ahead s a b" and "ahead s b p"
    and "0 < cross a' a b" and "0 < cross a b p"
  shows "0 < cross a' a p"
proof -
  let ?m = "mirror a a'"
  have 1: "ahead s a ?m" "ahead s a p"
    using assms(2) ahead_trans [OF s assms(3,4)] by (simp_all add: ahead_mirror)
  have "cross a b ?m = - cross a b a'"
    by (rule cross_mirror_right)
  also have "\<dots> = cross a a' b"
    using cross_swap [of a a' b] by simp
  also have "\<dots> = cross a' b a"
    by (rule cross_rotate [symmetric])
  also have "\<dots> = - cross a' a b"
    by (rule cross_swap)
  finally have "cross a ?m b = cross a' a b"
    using cross_swap [of a ?m b] by simp
  then have 2: "0 < cross a ?m b"
    using assms(5) by simp
  have "0 < cross a ?m p"
    using fan_transitive_strict [OF s 1(1) assms(3) 1(2) 2] assms(6) by simp
  then have "0 < - cross a a' p"
    by (simp add: cross_mirror_left)
  then have "0 < cross a p a'"
    using cross_swap [of a p a'] by simp
  then show ?thesis
    using cross_rotate [of a p a'] cross_rotate [of p a' a] by simp
qed

subsection \<open>The scan keeps its invariant\<close>


lemma leftTurns_tl: "leftTurns (x # xs) \<Longrightarrow> leftTurns xs"
  by (cases xs rule: leftTurns.cases) auto

lemma adjPairs_tl_subset: "set (adjPairs xs) \<subseteq> set (adjPairs (x # xs))"
  by (cases xs) auto

lemma edgesLeftOf_tl: "edgesLeftOf V (x # xs) \<Longrightarrow> edgesLeftOf V xs"
  using adjPairs_tl_subset [of xs x] unfolding edgesLeftOf_def by blast

lemma popWhile_subset: "set (popWhile st p) \<subseteq> set st"
  by (induction st p rule: popWhile.induct) auto

lemma popWhile_nonempty: "st \<noteq> [] \<Longrightarrow> popWhile st p \<noteq> []"
  by (induction st p rule: popWhile.induct) auto

lemma popWhile_last: "st \<noteq> [] \<Longrightarrow> last (popWhile st p) = last st"
  by (induction st p rule: popWhile.induct) auto

lemma popWhile_sorted: "sorted_wrt R st \<Longrightarrow> sorted_wrt R (popWhile st p)"
  by (induction st p rule: popWhile.induct) auto

lemma popWhile_leftTurns: "leftTurns st \<Longrightarrow> leftTurns (popWhile st p)"
proof (induction st p rule: popWhile.induct)
  case (1 b a st p)
  then show ?case
    using leftTurns_tl [of b "a # st"] by auto
qed simp_all

lemma popWhile_edges: "edgesLeftOf V st \<Longrightarrow> edgesLeftOf V (popWhile st p)"
proof (induction st p rule: popWhile.induct)
  case (1 b a st p)
  then show ?case
    using edgesLeftOf_tl [of V b "a # st"] by auto
qed simp_all

lemma popWhile_exit: "popWhile st p = b # a # rest \<Longrightarrow> 0 < cross a b p"
proof (induction st p rule: popWhile.induct)
  case (1 b' a' st p)
  then show ?case
    by (cases "cross a' b' p \<le> 0") auto
qed simp_all

text \<open>After the pops, every visited point ahead of the new top lies left of the segment
  from that top to the incoming point.\<close>

lemma popWhile_ahead_left:
  assumes s: "s = 1 \<or> s = -1"
    and "st \<noteq> []"
    and "edgesLeftOf V st"
    and "sorted_wrt (\<lambda>y x. ahead s x y) st"
    and "set st \<subseteq> V"
    and "\<forall>q \<in> V. ahead s q p"
    and "\<forall>q \<in> V. ahead s (hd st) q \<longrightarrow> 0 \<le> cross (hd st) p q"
  shows "\<forall>q \<in> V. ahead s (hd (popWhile st p)) q \<longrightarrow> 0 \<le> cross (hd (popWhile st p)) p q"
  using assms(2-7)
proof (induction st p rule: popWhile.induct)
  case (1 b a st p)
  show ?case
  proof (cases "cross a b p \<le> 0")
    case False
    then show ?thesis
      using "1.prems"(6) by simp
  next
    case True
    have ab: "ahead s a b"
      using "1.prems"(3) by simp
    have ap: "ahead s a p"
      using "1.prems"(4,5) by simp
    have edge: "\<forall>q \<in> V. 0 \<le> cross a b q"
      using "1.prems"(2) unfolding edgesLeftOf_def by auto
    have "\<forall>q \<in> V. ahead s (hd (a # st)) q \<longrightarrow> 0 \<le> cross (hd (a # st)) p q"
      using pop_keeps_left [OF s ab ap _ True] edge by auto
    moreover have "edgesLeftOf V (a # st)"
      using "1.prems"(2) by (rule edgesLeftOf_tl)
    ultimately have "\<forall>q \<in> V. ahead s (hd (popWhile (a # st) p)) q
                       \<longrightarrow> 0 \<le> cross (hd (popWhile (a # st) p)) p q"
      using "1.IH" [OF True] "1.prems"(3,4,5) by simp
    then show ?thesis
      using True by simp
  qed
qed simp_all

text \<open>A point beyond a convex chain that turns left at its top edge turns left at every edge.\<close>

lemma chain_left_of_new_point:
  assumes s: "s = 1 \<or> s = -1"
    and "leftTurns (b # a # rest)"
    and "sorted_wrt (\<lambda>y x. ahead s x y) (b # a # rest)"
    and "ahead s b p"
    and "0 < cross a b p"
  shows "\<forall>(y, x) \<in> set (adjPairs (b # a # rest)). 0 < cross x y p"
  using assms(2-5)
proof (induction rest arbitrary: a b)
  case Nil
  then show ?case by simp
next
  case (Cons a' rest)
  have ab: "ahead s a b" and a'a: "ahead s a' a"
    using Cons.prems(2) by simp_all
  have ap: "ahead s a p"
    using ahead_trans [OF s ab Cons.prems(3)] .
  have turn: "0 < cross a' a b"
    using Cons.prems(1) by simp
  have "0 < cross a' a p"
    using left_turn_carries [OF s a'a ab Cons.prems(3) turn Cons.prems(4)] .
  moreover have "leftTurns (a # a' # rest)"
    using Cons.prems(1) by simp
  moreover have "sorted_wrt (\<lambda>y x. ahead s x y) (a # a' # rest)"
    using Cons.prems(2) by simp
  ultimately have "\<forall>(y, x) \<in> set (adjPairs (a # a' # rest)). 0 < cross x y p"
    using Cons.IH ap by blast
  then show ?case
    using Cons.prems(4) by simp
qed

lemma scanInv_single: "scanInv s {p} [p]"
  by (simp add: scanInv_def edgesLeftOf_def)

lemma scanInv_push:
  assumes s: "s = 1 \<or> s = -1"
    and inv: "scanInv s V st"
    and new: "\<forall>q \<in> V. ahead s q p"
  shows "scanInv s (insert p V) (pushPoint p st)"
proof -
  define st' where "st' = popWhile st p"
  have ne: "st \<noteq> []" and sub: "set st \<subseteq> V"
    and top: "\<forall>q \<in> V. q = hd st \<or> ahead s q (hd st)"
    and bot: "\<forall>q \<in> V. q = last st \<or> ahead s (last st) q"
    and srt: "sorted_wrt (\<lambda>y x. ahead s x y) st"
    and trn: "leftTurns st" and edg: "edgesLeftOf V st"
    using inv by (simp_all add: scanInv_def)
  have ne': "st' \<noteq> []" and sub': "set st' \<subseteq> V" and last': "last st' = last st"
    and srt': "sorted_wrt (\<lambda>y x. ahead s x y) st'" and trn': "leftTurns st'"
    and edg': "edgesLeftOf V st'"
    unfolding st'_def
    using ne sub srt trn edg popWhile_nonempty popWhile_subset [of st p] popWhile_last
      popWhile_sorted popWhile_leftTurns popWhile_edges by auto
  have no_ahead: "\<not> ahead s (hd st) q" if "q \<in> V" for q
    using top that ahead_asym [OF s] ahead_irrefl by metis
  have beyond: "\<forall>q \<in> V. ahead s (hd st') q \<longrightarrow> 0 \<le> cross (hd st') p q"
    unfolding st'_def
    using popWhile_ahead_left [OF s ne edg srt sub new] no_ahead by blast
  have hd_in: "hd st' \<in> V" and last_in: "last st \<in> V"
    using ne' sub' ne sub by auto
  have turns_new: "leftTurns (p # st')"
  proof (cases st')
    case Nil
    then show ?thesis by simp
  next
    case (Cons b rest)
    show ?thesis
    proof (cases rest)
      case Nil
      then show ?thesis
        using \<open>st' = b # rest\<close> by simp
    next
      case (Cons a rest')
      have shape: "st' = b # a # rest'"
        using \<open>st' = b # rest\<close> Cons by simp
      have "0 < cross a b p"
        using popWhile_exit [of st p b a rest'] shape by (simp add: st'_def)
      then show ?thesis
        using trn' shape by simp
    qed
  qed
  have old_edges_new_point: "\<forall>(y, x) \<in> set (adjPairs st'). 0 \<le> cross x y p"
  proof (cases st')
    case Nil
    then show ?thesis by simp
  next
    case (Cons b rest)
    show ?thesis
    proof (cases rest)
      case Nil
      then show ?thesis using Cons by simp
    next
      case (Cons a rest')
      have shape: "st' = b # a # rest'"
        using \<open>st' = b # rest\<close> Cons by simp
      have "0 < cross a b p"
        using popWhile_exit [of st p b a rest'] shape by (simp add: st'_def)
      moreover have "ahead s b p"
        using new sub' shape by simp
      ultimately have "\<forall>(y, x) \<in> set (adjPairs (b # a # rest')). 0 < cross x y p"
        using chain_left_of_new_point [OF s] trn' srt' shape by blast
      then show ?thesis
        unfolding shape by (auto simp: less_imp_le)
    qed
  qed
  have new_edge: "0 \<le> cross (hd st') p q" if q: "q \<in> V" for q
  proof -
    consider "q = hd st'" | "ahead s (hd st') q" | "ahead s q (hd st')"
      using ahead_total [OF s] by blast
    then show ?thesis
    proof cases
      case 1
      then show ?thesis by simp
    next
      case 2
      then show ?thesis using beyond q by blast
    next
      case 3
      show ?thesis
      proof (cases st')
        case Nil
        then show ?thesis using ne' by simp
      next
        case (Cons b rest)
        show ?thesis
        proof (cases rest)
          case Nil
          then have "hd st' = last st"
            using Cons last' by simp
          then show ?thesis
            using bot q 3 ahead_asym [OF s] ahead_irrefl by metis
        next
          case (Cons a rest')
          have shape: "st' = b # a # rest'"
            using \<open>st' = b # rest\<close> Cons by simp
          have "0 < cross a b p"
            using popWhile_exit [of st p b a rest'] shape by (simp add: st'_def)
          moreover have "0 \<le> cross a b q"
            using edg' q unfolding shape edgesLeftOf_def by auto
          moreover have "ahead s a b"
            using srt' shape by simp
          moreover have "ahead s b p"
            using new sub' shape by simp
          moreover have "ahead s q b"
            using 3 shape by simp
          ultimately have "0 \<le> cross b p q"
            using push_keeps_left [OF s] by blast
          then show ?thesis
            using shape by simp
        qed
      qed
    qed
  qed
  have pairs: "set (adjPairs (p # st')) = insert (p, hd st') (set (adjPairs st'))"
    using ne' by (cases st') auto
  have edges_new: "edgesLeftOf (insert p V) (p # st')"
    unfolding edgesLeftOf_def pairs
    using edg' old_edges_new_point new_edge unfolding edgesLeftOf_def by auto
  have "set (p # st') \<subseteq> insert p V"
    using sub' by auto
  moreover have "\<forall>q \<in> insert p V. q = hd (p # st') \<or> ahead s q (hd (p # st'))"
    using new by simp
  moreover have "\<forall>q \<in> insert p V. q = last (p # st') \<or> ahead s (last (p # st')) q"
    using bot new last_in last' ne' by auto
  moreover have "sorted_wrt (\<lambda>y x. ahead s x y) (p # st')"
    using srt' new sub' by auto
  ultimately show ?thesis
    using turns_new edges_new by (simp add: scanInv_def pushPoint_def st'_def)
qed

lemma scanInv_fold:
  assumes s: "s = 1 \<or> s = -1"
    and "scanInv s V st"
    and "sorted_wrt (ahead s) ps"
    and "\<forall>q \<in> V. \<forall>p \<in> set ps. ahead s q p"
  shows "scanInv s (V \<union> set ps) (fold pushPoint ps st)"
  using assms(2-4)
proof (induction ps arbitrary: V st)
  case Nil
  then show ?case by simp
next
  case (Cons p ps)
  have "scanInv s (insert p V) (pushPoint p st)"
    using scanInv_push [OF s Cons.prems(1)] Cons.prems(3) by simp
  moreover have "sorted_wrt (ahead s) ps"
    using Cons.prems(2) by simp
  moreover have "\<forall>q \<in> insert p V. \<forall>p' \<in> set ps. ahead s q p'"
    using Cons.prems(2,3) by simp
  ultimately have "scanInv s (insert p V \<union> set ps) (fold pushPoint ps (pushPoint p st))"
    by (rule Cons.IH)
  then show ?case by simp
qed

lemma scanInv_scan:
  assumes s: "s = 1 \<or> s = -1"
    and "ps \<noteq> []"
    and "sorted_wrt (ahead s) ps"
  shows "scanInv s (set ps) (fold pushPoint ps [])"
proof -
  obtain p rest where ps: "ps = p # rest"
    using assms(2) by (cases ps) auto
  have "scanInv s ({p} \<union> set rest) (fold pushPoint rest [p])"
    using scanInv_fold [OF s scanInv_single, of rest p] assms(3) ps by simp
  then show ?thesis
    by (simp add: ps pushPoint_def)
qed


subsection \<open>Deduplication and sorting\<close>

lemma seen_fold_set:
  "set (fold (\<lambda>p seen. if p \<in> set seen then seen else seen @ [p]) ps acc) = set acc \<union> set ps"
  by (induction ps arbitrary: acc) auto

lemma seen_fold_distinct:
  "distinct acc \<Longrightarrow> distinct (fold (\<lambda>p seen. if p \<in> set seen then seen else seen @ [p]) ps acc)"
  by (induction ps arbitrary: acc) auto

lemma set_uniquePoints: "set (uniquePoints ps) = set ps"
  by (simp add: uniquePoints_def seen_fold_set)

lemma distinct_uniquePoints: "distinct (uniquePoints ps)"
  by (simp add: uniquePoints_def seen_fold_distinct)

lemma length_uniquePoints: "length (uniquePoints ps) = card (set ps)"
  using distinct_card [OF distinct_uniquePoints, of ps] by (simp add: set_uniquePoints)

lemma set_insertPoint: "set (insertPoint p qs) = insert p (set qs)"
  by (induction qs) auto

lemma set_sortPoints: "set (sortPoints ps) = set ps"
  by (induction ps) (simp_all add: sortPoints_def set_insertPoint)

lemma length_insertPoint: "length (insertPoint p qs) = Suc (length qs)"
  by (induction qs) auto

lemma length_sortPoints: "length (sortPoints ps) = length ps"
  by (induction ps) (simp_all add: sortPoints_def length_insertPoint)

lemma lexLess_trans: "lexLess a b \<Longrightarrow> lexLess b c \<Longrightarrow> lexLess a c"
  by (auto simp: lexLess_def)

lemma lexLess_total: "a = b \<or> lexLess a b \<or> lexLess b a"
  by (auto simp: lexLess_def point_eq_iff)

lemma sorted_insertPoint:
  assumes "sorted_wrt lexLess qs" and "p \<notin> set qs"
  shows "sorted_wrt lexLess (insertPoint p qs)"
  using assms
proof (induction qs)
  case Nil
  then show ?case by simp
next
  case (Cons q qs)
  show ?case
  proof (cases "lexLess q p")
    case True
    then show ?thesis
      using Cons by (auto simp: set_insertPoint)
  next
    case False
    then have "lexLess p q"
      using Cons.prems(2) lexLess_total [of p q] by auto
    then show ?thesis
      using False Cons.prems(1) lexLess_trans [of p q] by auto
  qed
qed

lemma sorted_sortPoints: "distinct ps \<Longrightarrow> sorted_wrt lexLess (sortPoints ps)"
proof (induction ps)
  case Nil
  then show ?case by (simp add: sortPoints_def)
next
  case (Cons p ps)
  then have "sorted_wrt lexLess (sortPoints ps)" and "p \<notin> set (sortPoints ps)"
    by (simp_all add: set_sortPoints)
  then show ?case
    using sorted_insertPoint [of "sortPoints ps" p] by (simp add: sortPoints_def)
qed

subsection \<open>Lists of adjacent pairs\<close>

lemma adjPairs_snoc: "xs \<noteq> [] \<Longrightarrow> adjPairs (xs @ [y]) = adjPairs xs @ [(last xs, y)]"
  by (induction xs rule: adjPairs.induct) auto

lemma adjPairs_append:
  "xs \<noteq> [] \<Longrightarrow> ys \<noteq> [] \<Longrightarrow> adjPairs (xs @ ys) = adjPairs xs @ (last xs, hd ys) # adjPairs ys"
proof (induction xs)
  case Nil
  then show ?case by simp
next
  case (Cons x xs)
  note step = Cons.IH and ys = Cons.prems(2)
  show ?case
  proof (cases xs)
    case Nil
    then show ?thesis
      using ys by (cases ys) auto
  next
    case (Cons x' xs')
    then show ?thesis
      using step ys by simp
  qed
qed

lemma adjPairs_rev: "set (adjPairs (rev xs)) = (\<lambda>(a, b). (b, a)) ` set (adjPairs xs)"
proof (induction xs rule: adjPairs.induct)
  case (1 a b xs)
  have "adjPairs (rev (a # b # xs)) = adjPairs (rev (b # xs)) @ [(b, a)]"
    using adjPairs_snoc [of "rev (b # xs)" a] by simp
  then show ?case
    using 1 by auto
qed simp_all

lemma adjPairs_zip: "adjPairs xs = zip xs (tl xs)"
  by (induction xs rule: adjPairs.induct) auto

lemma zip_shifted: "zip (x # xs) (xs @ [y]) = zip (x # xs) xs @ [(last (x # xs), y)]"
  by (induction xs arbitrary: x) auto

lemma polygonEdges_closed: "xs \<noteq> [] \<Longrightarrow> polygonEdges xs = adjPairs xs @ [(last xs, hd xs)]"
  by (cases xs) (simp_all add: polygonEdges_def adjPairs_zip zip_shifted)

subsection \<open>The two scans of \<open>getConvexHull\<close>\<close>

lemma sorted_backward: "sorted_wrt lexLess ps \<Longrightarrow> sorted_wrt (ahead (- 1)) (rev ps)"
  by (simp add: sorted_wrt_rev ahead_backward [abs_def])

lemma sorted_forward: "sorted_wrt lexLess ps \<Longrightarrow> sorted_wrt (ahead 1) ps"
  by (simp add: ahead_forward [abs_def])

lemma lexLess_irrefl: "\<not> lexLess a a"
  by (simp add: lexLess_def)

lemma lexLess_sorted_distinct: "sorted_wrt lexLess ps \<Longrightarrow> distinct ps"
  by (induction ps) (auto simp: lexLess_irrefl)

lemma stack_distinct:
  assumes "s = 1 \<or> s = -1" and "sorted_wrt (\<lambda>y x. ahead s x y) st"
  shows "distinct st"
  using assms(2) by (induction st) (auto simp: ahead_irrefl)

text \<open>
  What the two scans over the sorted points \<open>S\<close> leave on their stacks: both invariants,
  the lower stack topped by the last point and resting on the first, the upper stack the
  other way round, and at least two points on each.
\<close>

lemma scans:
  assumes srt: "sorted_wrt lexLess S" and len: "2 \<le> length S"
  defines "lo \<equiv> fold pushPoint S []" and "up \<equiv> fold pushPoint (rev S) []"
  shows "scanInv 1 (set S) lo" and "scanInv (- 1) (set S) up"
    and "hd up = last lo" and "last up = hd lo" and "hd lo \<noteq> last lo"
    and "tl lo \<noteq> []" and "tl up \<noteq> []"
proof -
  have ne: "S \<noteq> []"
    using len by auto
  show lo: "scanInv 1 (set S) lo"
    unfolding lo_def using scanInv_scan [of 1 S] ne sorted_forward [OF srt] by simp
  show up: "scanInv (- 1) (set S) up"
    unfolding up_def using scanInv_scan [of "- 1" "rev S"] ne sorted_backward [OF srt] by simp
  have lo_top: "\<forall>q \<in> set S. q = hd lo \<or> lexLess q (hd lo)"
    and lo_bot: "\<forall>q \<in> set S. q = last lo \<or> lexLess (last lo) q"
    and lo_in: "hd lo \<in> set S" "last lo \<in> set S" and lo_ne: "lo \<noteq> []"
    using lo by (auto simp: scanInv_def ahead_forward)
  have up_top: "\<forall>q \<in> set S. q = hd up \<or> lexLess (hd up) q"
    and up_bot: "\<forall>q \<in> set S. q = last up \<or> lexLess q (last up)"
    and up_in: "hd up \<in> set S" "last up \<in> set S" and up_ne: "up \<noteq> []"
    using up by (auto simp: scanInv_def ahead_backward)
  have asym: "\<not> (lexLess a b \<and> lexLess b a)" for a b
    by (auto simp: lexLess_def)
  show "hd up = last lo"
    using up_top lo_bot up_in(1) lo_in(2) asym by metis
  show "last up = hd lo"
    using up_bot lo_top up_in(2) lo_in(1) asym by metis
  show diff: "hd lo \<noteq> last lo"
  proof
    assume eq: "hd lo = last lo"
    have "q = hd lo" if "q \<in> set S" for q
      using lo_top lo_bot that eq asym by metis
    then have "set S \<subseteq> {hd lo}"
      by auto
    moreover have "distinct S"
      using srt by (rule lexLess_sorted_distinct)
    ultimately have "length S \<le> 1"
      using distinct_card [of S] card_mono [of "{hd lo}" "set S"] by simp
    then show False
      using len by simp
  qed
  show "tl lo \<noteq> []"
    using diff lo_ne by (cases lo) auto
  show "tl up \<noteq> []"
    using diff \<open>hd up = last lo\<close> \<open>last up = hd lo\<close> up_ne by (cases up) auto
qed

lemma getConvexHull_unfold:
  assumes "3 \<le> card (set points)"
  defines "S \<equiv> sortPoints (uniquePoints points)"
  shows "getConvexHull points = rev (tl (fold pushPoint S [])) @ rev (tl (fold pushPoint (rev S) []))"
    and "sorted_wrt lexLess S" and "set S = set points" and "2 \<le> length S"
proof -
  have "card (set points) \<le> length points"
    by (rule card_length)
  then have "\<not> length points < 3" and "\<not> length (uniquePoints points) < 3"
    using assms(1) by (simp_all add: length_uniquePoints)
  then show "getConvexHull points = rev (tl (fold pushPoint S [])) @ rev (tl (fold pushPoint (rev S) []))"
    by (simp add: getConvexHull_def Let_def halfHull_def S_def)
  show "sorted_wrt lexLess S"
    unfolding S_def by (rule sorted_sortPoints [OF distinct_uniquePoints])
  show "set S = set points"
    by (simp add: S_def set_sortPoints set_uniquePoints)
  show "2 \<le> length S"
    using assms(1) by (simp add: S_def length_sortPoints length_uniquePoints)
qed

subsection \<open>The hull returned by \<open>getConvexHull\<close>\<close>


lemma hull_structure:
  assumes "3 \<le> card (set points)"
  obtains lo up where
    "getConvexHull points = rev (tl lo) @ rev (tl up)"
    "scanInv 1 (set points) lo" "scanInv (- 1) (set points) up"
    "hd up = last lo" "last up = hd lo" "hd lo \<noteq> last lo" "tl lo \<noteq> []" "tl up \<noteq> []"
proof -
  define S where "S = sortPoints (uniquePoints points)"
  note u = getConvexHull_unfold [OF assms, folded S_def]
  note sc = scans [OF u(2) u(4)]
  show ?thesis
    using that [of "fold pushPoint S []" "fold pushPoint (rev S) []"] u(1) sc
    unfolding u(3) by blast
qed

lemma interior_split:
  assumes "x \<in> set xs" and "x \<noteq> hd xs" and "x \<noteq> last xs"
  obtains pre b a post where "xs = pre @ b # x # a # post"
proof -
  obtain ys zs where xs: "xs = ys @ x # zs"
    using assms(1) by (auto dest: split_list)
  have "ys \<noteq> []" and "zs \<noteq> []"
    using assms(2,3) xs by auto
  then obtain pre b a post where "ys = pre @ [b]" and "zs = a # post"
    by (metis rev_exhaust list.exhaust)
  then show ?thesis
    using that xs by simp
qed

lemma inner_split:
  assumes "x \<in> set xs" and "x \<noteq> last xs"
  obtains pre c post where "xs = pre @ x # c # post"
proof -
  obtain ys zs where xs: "xs = ys @ x # zs"
    using assms(1) by (auto dest: split_list)
  have "zs \<noteq> []"
    using assms(2) xs by auto
  then obtain c post where "zs = c # post"
    by (cases zs) auto
  then show ?thesis
    using that xs by simp
qed

lemma leftTurns_mid: "leftTurns (pre @ c # b # a # post) \<Longrightarrow> 0 < cross a b c"
proof (induction pre)
  case Nil
  then show ?case by simp
next
  case (Cons x pre)
  then show ?case
    using leftTurns_tl [of x "pre @ c # b # a # post"] by simp
qed

lemma adjPairs_mid: "(b, a) \<in> set (adjPairs (pre @ b # a # post))"
proof (induction pre)
  case Nil
  then show ?case by simp
next
  case (Cons x pre)
  then show ?case
    using adjPairs_tl_subset [of "pre @ b # a # post" x] by auto
qed

lemma edge_mid:
  assumes "edgesLeftOf V (pre @ b # a # post)" and "q \<in> V"
  shows "0 \<le> cross a b q"
  using assms adjPairs_mid [of b a pre post] unfolding edgesLeftOf_def by blast

text \<open>No point is an inner vertex of the lower chain and a vertex of the upper chain.\<close>

lemma chains_disjoint:
  assumes lo: "scanInv 1 V lo" and up: "scanInv (- 1) V up"
    and ends: "hd up = last lo" "last up = hd lo"
    and x: "x \<in> set (tl lo)" "x \<in> set (tl up)"
  shows False
proof -
  have dl: "distinct lo" and du: "distinct up"
    using lo up stack_distinct [of 1 lo] stack_distinct [of "- 1" up] by (simp_all add: scanInv_def)
  have lo_ne: "lo \<noteq> []" and up_ne: "up \<noteq> []"
    using lo up by (simp_all add: scanInv_def)
  have "x \<noteq> hd lo"
    using x(1) dl lo_ne by (cases lo) auto
  moreover have "x \<noteq> hd up"
    using x(2) du up_ne by (cases up) auto
  moreover have "x \<in> set lo" and "x \<in> set up"
    using x lo_ne up_ne by (auto dest: list.set_sel(2))
  ultimately obtain pre b a post pre' c post'
    where los: "lo = pre @ b # x # a # post" and ups: "up = pre' @ x # c # post'"
    using interior_split [of x lo] inner_split [of x up] ends by metis
  have sub: "set lo \<subseteq> V" "set up \<subseteq> V"
    using lo up by (simp_all add: scanInv_def)
  have inV: "a \<in> V" "c \<in> V"
    using sub los ups by auto
  have turn: "0 < cross a x b"
    using lo los leftTurns_mid [of pre b x a post] by (simp add: scanInv_def)
  have order: "ahead 1 x b" "ahead 1 a x"
    using lo unfolding los scanInv_def by (simp_all add: sorted_wrt_append)
  have "ahead (- 1) c x"
    using up unfolding ups scanInv_def by (simp add: sorted_wrt_append)
  then have xc: "ahead 1 x c"
    by (simp add: ahead_forward ahead_backward)
  have e1: "0 \<le> cross x b c"
    using edge_mid [of V pre b x "a # post" c] lo los inV by (simp add: scanInv_def)
  have e2: "0 \<le> cross a x c"
    using edge_mid [of V "pre @ [b]" x a post c] lo los inV by (simp add: scanInv_def)
  have e3: "0 \<le> cross c x a"
    using edge_mid [of V pre' x c post' a] up ups inV by (simp add: scanInv_def)
  have "cross c x a = - cross a x c"
    by (simp add: cross_def algebra_simps)
  then have flat: "cross a x c = 0"
    using e2 e3 by simp
  have "cross x (mirror x a) b = cross a x b"
    by (simp add: cross_def mirror_def algebra_simps)
  then have "0 < cross x (mirror x a) b"
    using turn by simp
  moreover have "ahead 1 x (mirror x a)"
    using order(2) by (simp add: ahead_mirror)
  ultimately have "0 < cross x (mirror x a) c"
    using fan_transitive_strict [of 1 x "mirror x a" b c] order(1) xc e1 by simp
  moreover have "cross x (mirror x a) c = cross a x c"
    by (simp add: cross_def mirror_def algebra_simps)
  ultimately show False
    using flat by simp
qed

text \<open>
  C10.  For an input with at least 3 different points, every point of the sequence
  returned by \<open>getConvexHull\<close> is one of the input points, and no point occurs twice
  in it.
\<close>

theorem hull_points_from_input:
  assumes "3 \<le> card (set points)"
  shows "set (getConvexHull points) \<subseteq> set points \<and> distinct (getConvexHull points)"
proof -
  obtain lo up where H: "getConvexHull points = rev (tl lo) @ rev (tl up)"
    and lo: "scanInv 1 (set points) lo" and up: "scanInv (- 1) (set points) up"
    and ends: "hd up = last lo" "last up = hd lo"
    using hull_structure [OF assms] by metis
  have "set (tl lo) \<subseteq> set points" and "set (tl up) \<subseteq> set points"
    using lo up by (auto simp: scanInv_def dest: list.set_sel(2))
  then have sub: "set (getConvexHull points) \<subseteq> set points"
    unfolding H by simp
  have "distinct (tl lo)" and "distinct (tl up)"
    using lo up stack_distinct [of 1 lo] stack_distinct [of "- 1" up]
    by (simp_all add: scanInv_def distinct_tl)
  moreover have "set (tl lo) \<inter> set (tl up) = {}"
    using chains_disjoint [OF lo up ends] by blast
  ultimately have "distinct (getConvexHull points)"
    unfolding H by simp
  then show ?thesis
    using sub by simp
qed

lemma hull_edges:
  assumes "tl lo \<noteq> []" and "tl up \<noteq> []" and "hd up = last lo" and "last up = hd lo"
  shows "set (polygonEdges (rev (tl lo) @ rev (tl up)))
           = set (adjPairs (rev lo)) \<union> set (adjPairs (rev up))"
proof -
  define l where "l = rev (tl lo)"
  define u where "u = rev (tl up)"
  have ne: "l \<noteq> []" "u \<noteq> []" "lo \<noteq> []" "up \<noteq> []"
    using assms(1,2) by (auto simp: l_def u_def)
  have lo: "rev lo = l @ [hd lo]"
    using ne(3) by (cases lo) (simp_all add: l_def)
  have up: "rev up = u @ [hd up]"
    using ne(4) by (cases up) (simp_all add: u_def)
  have hd_u: "hd u = hd lo"
    using assms(2,4) by (simp add: u_def hd_rev last_tl)
  have hd_l: "hd l = hd up"
    using assms(1,3) by (simp add: l_def hd_rev last_tl)
  have closed: "polygonEdges (l @ u) = adjPairs (l @ u) @ [(last (l @ u), hd (l @ u))]"
    using ne(1) by (intro polygonEdges_closed) simp
  have inner: "adjPairs (l @ u) = adjPairs l @ (last l, hd u) # adjPairs u"
    using ne(1,2) by (rule adjPairs_append)
  have ends: "last (l @ u) = last u" "hd (l @ u) = hd l"
    using ne(1,2) by simp_all
  have lower: "adjPairs (rev lo) = adjPairs l @ [(last l, hd lo)]"
    unfolding lo using ne(1) by (rule adjPairs_snoc)
  have upper: "adjPairs (rev up) = adjPairs u @ [(last u, hd up)]"
    unfolding up using ne(2) by (rule adjPairs_snoc)
  have "set (polygonEdges (l @ u))
          = set (adjPairs l) \<union> {(last l, hd lo)} \<union> (set (adjPairs u) \<union> {(last u, hd up)})"
    unfolding closed inner ends hd_u hd_l by auto
  also have "\<dots> = set (adjPairs (rev lo)) \<union> set (adjPairs (rev up))"
    unfolding lower upper by auto
  finally show ?thesis
    unfolding l_def u_def .
qed

subsection \<open>Strict left turns all around\<close>


lemma ahead_opposite: "ahead (- s) a b \<longleftrightarrow> ahead s b a"
  by (simp add: ahead_def algebra_simps)

lemma on_common_line:
  assumes "cross a m d = 0" and "cross a m q = 0" and "a \<noteq> m"
  shows "cross m d q = 0"
proof -
  define ux uy where "ux = p_col m - p_col a" and "uy = p_row m - p_row a"
  define vx vy where "vx = p_col d - p_col a" and "vy = p_row d - p_row a"
  define wx wy where "wx = p_col q - p_col a" and "wy = p_row q - p_row a"
  have uv: "ux * vy - uy * vx = 0" and uw: "ux * wy - uy * wx = 0"
    using assms(1,2) by (simp_all add: cross_def ux_def uy_def vx_def vy_def wx_def wy_def)
  have "ux * (vx * wy - vy * wx) = vx * (ux * wy - uy * wx) - wx * (ux * vy - uy * vx)"
    and "uy * (vx * wy - vy * wx) = vy * (ux * wy - uy * wx) - wy * (ux * vy - uy * vx)"
    by (simp_all add: algebra_simps)
  then have "ux * (vx * wy - vy * wx) = 0" and "uy * (vx * wy - vy * wx) = 0"
    using uv uw by simp_all
  moreover have "ux \<noteq> 0 \<or> uy \<noteq> 0"
    using assms(3) by (auto simp: ux_def uy_def point_eq_iff)
  ultimately have vw: "vx * wy - vy * wx = 0"
    by auto
  have "cross m d q = (vx - ux) * (wy - uy) - (vy - uy) * (wx - ux)"
    by (simp add: cross_def ux_def uy_def vx_def vy_def wx_def wy_def)
  also have "\<dots> = (vx * wy - vy * wx) - (ux * wy - uy * wx) + (ux * vy - uy * vx)"
    by (simp add: algebra_simps)
  finally show ?thesis
    using uv uw vw by simp
qed

text \<open>
  Where one scan ends and the opposite scan starts, the hull turns strictly left, unless
  both chains are single edges.
\<close>

lemma junction_turn:
  assumes s: "s = 1 \<or> s = -1"
    and A: "scanInv s V (m # a # restA)"
    and B: "scanInv (- s) V (preB @ [d, m])"
    and long: "restA \<noteq> [] \<or> preB \<noteq> []"
  shows "0 < cross a m d"
proof (rule ccontr)
  assume "\<not> 0 < cross a m d"
  have inV: "a \<in> V" "d \<in> V"
    using A B by (simp_all add: scanInv_def)
  have edgeA: "0 \<le> cross a m q" if "q \<in> V" for q
    using A that by (simp add: scanInv_def edgesLeftOf_def)
  have edgeB: "0 \<le> cross m d q" if "q \<in> V" for q
    using edge_mid [of V preB d m "[]" q] B that by (simp add: scanInv_def)
  have flat: "cross a m d = 0"
    using edgeA [OF inV(2)] \<open>\<not> 0 < cross a m d\<close> by simp
  have am: "ahead s a m"
    using A by (simp add: scanInv_def)
  have dm: "ahead s d m"
    using B by (simp add: scanInv_def sorted_wrt_append ahead_opposite)
  have top: "q = m \<or> ahead s q m" if "q \<in> V" for q
    using A that by (simp add: scanInv_def)
  have line: "cross a m q = 0" if q: "q \<in> V" for q
  proof (cases "q = m")
    case True
    then show ?thesis by simp
  next
    case False
    then have qm: "ahead s q m"
      using top [OF q] by simp
    have "0 \<le> cross m (mirror m a) (mirror m d)"
      using flat by (simp add: cross_def mirror_def algebra_simps)
    moreover have "0 \<le> cross m (mirror m d) (mirror m q)"
      using edgeB [OF q] by (simp add: cross_def mirror_def algebra_simps)
    ultimately have "0 \<le> cross m (mirror m a) (mirror m q)"
      using fan_transitive [of s m "mirror m a" "mirror m d" "mirror m q"] s am dm qm
      by (simp add: ahead_mirror)
    then have "cross a m q \<le> 0"
      by (simp add: cross_def mirror_def algebra_simps)
    then show ?thesis
      using edgeA [OF q] by simp
  qed
  have neq: "a \<noteq> m"
    using am ahead_irrefl by auto
  show False
    using long
  proof
    assume "restA \<noteq> []"
    then obtain a' r where rest: "restA = a' # r"
      by (cases restA) auto
    have "0 < cross a' a m" and "a' \<in> V"
      using A by (simp_all add: scanInv_def rest)
    moreover have "cross a' a m = cross a m a'"
      by (simp add: cross_def algebra_simps)
    ultimately show False
      using line [of a'] by simp
  next
    assume "preB \<noteq> []"
    then obtain pre' d' where pre: "preB = pre' @ [d']"
      by (metis rev_exhaust)
    have "leftTurns (pre' @ d' # d # m # [])" and "d' \<in> V"
      using B by (simp_all add: scanInv_def pre)
    then have "0 < cross m d d'"
      using leftTurns_mid [of pre' d' d m "[]"] by simp
    then show False
      using on_common_line [OF flat line [OF \<open>d' \<in> V\<close>] neq] by simp
  qed
qed

lemma leftTurns_join:
  assumes "xs \<noteq> []" and "ys \<noteq> []"
    and "leftTurns (xs @ [b])" and "leftTurns (b # ys)"
    and "0 < cross (hd ys) b (last xs)"
  shows "leftTurns (xs @ b # ys)"
  using assms(1,3,5)
proof (induction xs)
  case Nil
  then show ?case by simp
next
  case (Cons x xs)
  note step = Cons.IH and prems = Cons.prems
  obtain y ys' where ys: "ys = y # ys'"
    using assms(2) by (cases ys) auto
  show ?case
  proof (cases xs)
    case Nil
    then show ?thesis
      using prems assms(4) ys by simp
  next
    case (Cons x' xs')
    show ?thesis
    proof (cases xs')
      case Nil
      have "leftTurns (xs @ b # ys)"
        using step prems leftTurns_tl [of x "xs @ [b]"] Cons by simp
      then show ?thesis
        using prems(2) Cons Nil by simp
    next
      case (Cons x'' xs'')
      have "leftTurns (xs @ b # ys)"
        using step prems leftTurns_tl [of x "xs @ [b]"] \<open>xs = x' # xs'\<close> by simp
      then show ?thesis
        using prems(2) \<open>xs = x' # xs'\<close> Cons by simp
    qed
  qed
qed

lemma leftTurns_nth:
  assumes "leftTurns (rev xs)" and "i + 2 < length xs"
  shows "0 < cross (xs ! i) (xs ! (i + 1)) (xs ! (i + 2))"
proof -
  have d0: "drop i xs = xs ! i # drop (Suc i) xs"
    using assms(2) by (simp add: Cons_nth_drop_Suc)
  have d1: "drop (Suc i) xs = xs ! Suc i # drop (Suc (Suc i)) xs"
    using assms(2) by (simp add: Cons_nth_drop_Suc)
  have d2: "drop (Suc (Suc i)) xs = xs ! Suc (Suc i) # drop (Suc (Suc (Suc i))) xs"
    using assms(2) by (simp add: Cons_nth_drop_Suc)
  have "rev xs = rev (drop i xs) @ rev (take i xs)"
    using rev_append [of "take i xs" "drop i xs"] by simp
  also have "\<dots> = rev (drop (Suc (Suc (Suc i))) xs)
                     @ xs ! Suc (Suc i) # xs ! Suc i # xs ! i # rev (take i xs)"
    by (simp add: d0 d1 d2)
  finally have "leftTurns (rev (drop (Suc (Suc (Suc i))) xs)
                     @ xs ! Suc (Suc i) # xs ! Suc i # xs ! i # rev (take i xs))"
    using assms(1) by simp
  then have "0 < cross (xs ! i) (xs ! Suc i) (xs ! Suc (Suc i))"
    by (rule leftTurns_mid)
  then show ?thesis
    by (simp add: numeral_2_eq_2)
qed

lemma cyclic_nth:
  assumes "2 \<le> length xs" and "i < length xs" and "k \<le> 2"
  shows "(xs @ take 2 xs) ! (i + k) = xs ! ((i + k) mod length xs)"
proof (cases "i + k < length xs")
  case True
  then show ?thesis
    by (simp add: nth_append)
next
  case False
  then have "(i + k) mod length xs = i + k - length xs"
    using assms by (simp add: mod_if)
  moreover have "i + k - length xs < 2"
    using assms False by linarith
  ultimately show ?thesis
    using False assms(1) by (simp add: nth_append)
qed


lemma cyclic_three:
  assumes "2 \<le> length xs" and "i < length xs"
  shows "(xs @ take 2 xs) ! i = xs ! i"
    and "(xs @ take 2 xs) ! (i + 1) = xs ! ((i + 1) mod length xs)"
    and "(xs @ take 2 xs) ! (i + 2) = xs ! ((i + 2) mod length xs)"
  using cyclic_nth [OF assms, of 0] cyclic_nth [OF assms, of 1] cyclic_nth [OF assms, of 2] assms(2)
  by simp_all

lemma two_ends:
  assumes "tl xs \<noteq> []"
  obtains x y rest pre v w where "xs = x # y # rest" and "xs = pre @ [v, w]"
    and "length pre = length rest"
proof -
  obtain x y rest where front: "xs = x # y # rest"
    using assms by (cases xs; cases "tl xs") auto
  obtain w ini where ini: "xs = ini @ [w]"
    using front by (metis rev_exhaust list.distinct(1))
  then have "ini \<noteq> []"
    using front by auto
  then obtain v pre where "ini = pre @ [v]"
    by (metis rev_exhaust)
  then have tail: "xs = pre @ [v, w]"
    using ini by simp
  have "length xs = length rest + 2"
    using front by simp
  moreover have "length xs = length pre + 2"
    using tail by simp
  ultimately have "length pre = length rest"
    by simp
  then show ?thesis
    using that front tail by blast
qed

text \<open>
  The closed polygon, written out once around and two points further, as a stack: it
  turns left everywhere when the hull has at least three points.
\<close>

lemma hull_turns_left:
  assumes lo: "scanInv 1 V lo" and up: "scanInv (- 1) V up"
    and ends: "hd up = last lo" "last up = hd lo"
    and ne: "tl lo \<noteq> []" "tl up \<noteq> []"
    and long: "3 \<le> length (tl lo) + length (tl up)"
  defines "H \<equiv> rev (tl lo) @ rev (tl up)"
  shows "leftTurns (rev (H @ take 2 H))"
proof -
  obtain m a restL preL l1 z where lo1: "lo = m # a # restL" and lo2: "lo = preL @ [l1, z]"
    and lenL: "length preL = length restL"
    using two_ends [OF ne(1)] by metis
  obtain z' y restU preU d m' where up1: "up = z' # y # restU" and up2: "up = preU @ [d, m']"
    and lenU: "length preU = length restU"
    using two_ends [OF ne(2)] by metis
  have "hd up = z'"
    by (simp add: up1)
  moreover have "last lo = z"
    by (simp add: lo2)
  ultimately have z: "z' = z"
    using ends(1) by simp
  have "last up = m'"
    by (simp add: up2)
  moreover have "hd lo = m"
    by (simp add: lo1)
  ultimately have m: "m' = m"
    using ends(2) by simp
  have rest: "restL \<noteq> [] \<or> restU \<noteq> []"
    using long lo1 up1 by auto
  then have pre: "restL \<noteq> [] \<or> preU \<noteq> []" "restU \<noteq> [] \<or> preL \<noteq> []"
    using lenL lenU by auto
  have turn_m: "0 < cross a m d"
    using junction_turn [of 1 V m a restL preU d] lo up pre(1)
    unfolding lo1 [symmetric] up2 [unfolded m, symmetric] by simp
  have turn_z: "0 < cross y z l1"
    using junction_turn [of "- 1" V z y restU preL l1] lo up pre(2)
    unfolding up1 [unfolded z, symmetric] lo2 [symmetric] by simp
  have take2: "take 2 H = [z, l1]"
  proof (cases preL)
    case Nil
    then have "tl lo = [z]" and "l1 = m"
      using lo1 lo2 by simp_all
    moreover have "rev (tl up) = m # rev (tl (preU @ [d]))"
      using up2 m by (cases preU) simp_all
    ultimately show ?thesis
      unfolding H_def by simp
  next
    case (Cons p ps)
    then have "rev (tl lo) = z # l1 # rev ps"
      using lo2 by simp
    then show ?thesis
      unfolding H_def by simp
  qed
  have "rev (H @ take 2 H) = l1 # z # rev H"
    unfolding take2 by simp
  moreover have "rev H = tl up @ tl lo"
    by (simp add: H_def)
  moreover have "z # tl up = preU @ [d, m]"
    using up1 up2 z m by simp
  ultimately have shape: "rev (H @ take 2 H) = (l1 # preU @ [d]) @ m # tl lo"
    by simp
  have "leftTurns (l1 # up)"
    using up turn_z by (simp add: scanInv_def up1 z)
  then have left: "leftTurns ((l1 # preU @ [d]) @ [m])"
    by (simp add: up2 m)
  have right: "leftTurns (m # tl lo)"
    using lo by (simp add: scanInv_def lo1)
  have "leftTurns ((l1 # preU @ [d]) @ m # tl lo)"
    using leftTurns_join [of "l1 # preU @ [d]" "tl lo" m] left right ne(1) turn_m lo1
    by simp
  then show ?thesis
    unfolding shape .
qed

text \<open>
  C7.  For an input with at least 3 different points, take the returned sequence as a
  closed polygon, with the edges \<open>(hull[i], hull[(i + 1) % n])\<close>.  Every input point
  lies on or to the left of every edge (its cross product with the edge is not
  negative): it is inside the polygon or on its boundary.  The cross products of all
  pairs of consecutive edges share one sign: none is negative, and when the hull has at
  least 3 points every one of them is positive.  (A hull of 2 points arises when all
  input points lie on one line; its first point is the smallest input point in the order
  by column and row, the other the largest, so the input points lie on the segment
  between them.)
\<close>

theorem hull_contains_input:
  assumes "3 \<le> card (set points)"
  shows "(\<forall>(a, b) \<in> set (polygonEdges (getConvexHull points)). \<forall>q \<in> set points. 0 \<le> cross a b q)
       \<and> (\<forall>i < length (getConvexHull points).
             0 \<le> cross (getConvexHull points ! i)
                       (getConvexHull points ! ((i + 1) mod length (getConvexHull points)))
                       (getConvexHull points ! ((i + 2) mod length (getConvexHull points))))
       \<and> (3 \<le> length (getConvexHull points) \<longrightarrow>
            (\<forall>i < length (getConvexHull points).
               0 < cross (getConvexHull points ! i)
                         (getConvexHull points ! ((i + 1) mod length (getConvexHull points)))
                         (getConvexHull points ! ((i + 2) mod length (getConvexHull points)))))
       \<and> (\<forall>q \<in> set points. q = hd (getConvexHull points) \<or> lexLess (hd (getConvexHull points)) q)
       \<and> (\<exists>m \<in> set (getConvexHull points). \<forall>q \<in> set points. q = m \<or> lexLess q m)"
proof -
  let ?H = "getConvexHull points"
  obtain lo up where H: "?H = rev (tl lo) @ rev (tl up)"
    and lo: "scanInv 1 (set points) lo" and up: "scanInv (- 1) (set points) up"
    and ends: "hd up = last lo" "last up = hd lo" and ne: "tl lo \<noteq> []" "tl up \<noteq> []"
    using hull_structure [OF assms] by metis
  have edges: "set (polygonEdges ?H) = set (adjPairs (rev lo)) \<union> set (adjPairs (rev up))"
    unfolding H by (rule hull_edges [OF ne ends])
  have left: "0 \<le> cross a b q" if "(a, b) \<in> set (polygonEdges ?H)" and "q \<in> set points" for a b q
  proof -
    have "(b, a) \<in> set (adjPairs lo) \<or> (b, a) \<in> set (adjPairs up)"
      using that(1) unfolding edges adjPairs_rev by auto
    then show ?thesis
      using lo up that(2) unfolding scanInv_def edgesLeftOf_def by blast
  qed
  have sub: "set ?H \<subseteq> set points"
    using lo up unfolding H by (auto simp: scanInv_def dest: list.set_sel(2))
  have len: "2 \<le> length ?H"
    using ne unfolding H by (cases "tl lo"; cases "tl up") simp_all
  have turn: "0 \<le> cross (?H ! i) (?H ! ((i + 1) mod length ?H)) (?H ! ((i + 2) mod length ?H))"
    if i: "i < length ?H" for i
  proof -
    have "(?H ! i, ?H ! ((i + 1) mod length ?H)) = polygonEdges ?H ! i"
      using i by (simp add: polygonEdges_def nth_rotate1)
    moreover have "i < length (polygonEdges ?H)"
      using i by (simp add: polygonEdges_def)
    ultimately have "(?H ! i, ?H ! ((i + 1) mod length ?H)) \<in> set (polygonEdges ?H)"
      by (metis nth_mem)
    moreover have "0 < length ?H"
      using i by auto
    then have "(i + 2) mod length ?H < length ?H"
      by (rule mod_less_divisor)
    then have "?H ! ((i + 2) mod length ?H) \<in> set points"
      using sub nth_mem by blast
    ultimately show ?thesis
      using left by blast
  qed
  have strict: "0 < cross (?H ! i) (?H ! ((i + 1) mod length ?H)) (?H ! ((i + 2) mod length ?H))"
    if i: "i < length ?H" and three: "3 \<le> length ?H" for i
  proof -
    have "leftTurns (rev (?H @ take 2 ?H))"
      unfolding H using hull_turns_left [OF lo up ends ne] three [unfolded H] by simp
    moreover have "i + 2 < length (?H @ take 2 ?H)"
      using i len by simp
    ultimately have "0 < cross ((?H @ take 2 ?H) ! i) ((?H @ take 2 ?H) ! (i + 1))
                              ((?H @ take 2 ?H) ! (i + 2))"
      by (rule leftTurns_nth)
    then show ?thesis
      using cyclic_three [OF len i] by simp
  qed
  have "hd ?H = last lo"
    using ne(1) unfolding H by (simp add: hd_rev last_tl)
  then have low: "\<forall>q \<in> set points. q = hd ?H \<or> lexLess (hd ?H) q"
    using lo by (simp add: scanInv_def ahead_forward)
  have "hd (rev (tl up)) = hd lo"
    using ne(2) ends(2) by (simp add: hd_rev last_tl)
  then have "hd lo \<in> set ?H"
    using ne(2) unfolding H by (metis UnCI hd_in_set rev_is_Nil_conv set_append)
  moreover have "\<forall>q \<in> set points. q = hd lo \<or> lexLess q (hd lo)"
    using lo by (simp add: scanInv_def ahead_forward)
  ultimately have high: "\<exists>m \<in> set ?H. \<forall>q \<in> set points. q = m \<or> lexLess q m"
    by blast
  show ?thesis
    using left turn strict low high by blast
qed

lemma brushPoints_card: "3 \<le> card (set brushPoints)"
  by code_simp

lemma brushPoints_hull:
  "getConvexHull brushPoints
     = [\<lparr>p_row = 5, p_col = 5\<rparr>, \<lparr>p_row = 5, p_col = 15\<rparr>,
        \<lparr>p_row = 15, p_col = 15\<rparr>, \<lparr>p_row = 15, p_col = 5\<rparr>]"
  by code_simp

text \<open>The hull of the brush stroke: the four corners, each once.\<close>

theorem hull_points_from_input_witness:
  "getConvexHull brushPoints
     = [\<lparr>p_row = 5, p_col = 5\<rparr>, \<lparr>p_row = 5, p_col = 15\<rparr>,
        \<lparr>p_row = 15, p_col = 15\<rparr>, \<lparr>p_row = 15, p_col = 5\<rparr>]
   \<and> set (getConvexHull brushPoints) \<subseteq> set brushPoints
   \<and> distinct (getConvexHull brushPoints)"
  using hull_points_from_input [OF brushPoints_card] brushPoints_hull by simp

text \<open>Every point of the brush stroke against every edge of its hull.\<close>

theorem hull_contains_input_witness:
  "list_all (\<lambda>(a, b). list_all (\<lambda>q. 0 \<le> cross a b q) brushPoints)
            (polygonEdges (getConvexHull brushPoints))
   \<and> list_all (\<lambda>i. 0 < cross (getConvexHull brushPoints ! i)
                              (getConvexHull brushPoints ! ((i + 1) mod 4))
                              (getConvexHull brushPoints ! ((i + 2) mod 4))) [0, 1, 2, 3]"
  using hull_contains_input [OF brushPoints_card] brushPoints_hull
  by (simp add: list_all_iff case_prod_beta cross_def)

end
